theory Spec2Isabelle
  imports Complex_Main
begin

section \<open>JavaScript numbers\<close>

text \<open>
  The heightmap code of \<^verbatim>\<open>src/assets/main.js\<close> computes with JavaScript numbers.
  A number is modelled as \<open>NaN\<close>, one of the two infinities, or a finite value. Finite
  values are real numbers. The sign of zero is not modelled (a zero divisor behaves
  as \<open>+0\<close>). The operations \<open>js_add\<close>, \<open>js_sub\<close>, \<open>js_mul\<close> and \<open>js_div\<close> are exact on
  finite values; they keep every place where the arithmetic of the source leaves
  the finite numbers: division by zero, \<open>0/0\<close>, \<open>Infinity - Infinity\<close>, and the
  absorbing \<open>NaN\<close>. The rounding of IEEE doubles is modelled separately, by
  \<open>js_round\<close> below, and applied in \<open>normaliseBetween\<close>, the one function whose claims
  speak of the exact values of its results.
\<close>

datatype jsnum = NaN | NInf | Fin real | PInf

fun js_neg :: "jsnum \<Rightarrow> jsnum" where
  "js_neg NaN = NaN"
| "js_neg NInf = PInf"
| "js_neg PInf = NInf"
| "js_neg (Fin a) = Fin (- a)"

fun js_add :: "jsnum \<Rightarrow> jsnum \<Rightarrow> jsnum" where
  "js_add NaN b = NaN"
| "js_add a NaN = NaN"
| "js_add PInf NInf = NaN"
| "js_add NInf PInf = NaN"
| "js_add PInf b = PInf"
| "js_add a PInf = PInf"
| "js_add NInf b = NInf"
| "js_add a NInf = NInf"
| "js_add (Fin a) (Fin b) = Fin (a + b)"

definition js_sub :: "jsnum \<Rightarrow> jsnum \<Rightarrow> jsnum" where
  "js_sub a b = js_add a (js_neg b)"

text \<open>The sign of a product or quotient with an infinite operand.\<close>

definition signed_inf :: "bool \<Rightarrow> jsnum" where
  "signed_inf positive = (if positive then PInf else NInf)"

fun js_mul :: "jsnum \<Rightarrow> jsnum \<Rightarrow> jsnum" where
  "js_mul NaN b = NaN"
| "js_mul a NaN = NaN"
| "js_mul (Fin a) (Fin b) = Fin (a * b)"
| "js_mul (Fin a) PInf = (if a = 0 then NaN else signed_inf (0 < a))"
| "js_mul (Fin a) NInf = (if a = 0 then NaN else signed_inf (a < 0))"
| "js_mul PInf (Fin b) = (if b = 0 then NaN else signed_inf (0 < b))"
| "js_mul NInf (Fin b) = (if b = 0 then NaN else signed_inf (b < 0))"
| "js_mul PInf PInf = PInf"
| "js_mul NInf NInf = PInf"
| "js_mul PInf NInf = NInf"
| "js_mul NInf PInf = NInf"

fun js_div :: "jsnum \<Rightarrow> jsnum \<Rightarrow> jsnum" where
  "js_div NaN b = NaN"
| "js_div a NaN = NaN"
| "js_div (Fin a) (Fin b) =
     (if b \<noteq> 0 then Fin (a / b)
      else if a = 0 then NaN
      else signed_inf (0 < a))"
| "js_div (Fin a) PInf = Fin 0"
| "js_div (Fin a) NInf = Fin 0"
| "js_div PInf (Fin b) = signed_inf (0 \<le> b)"
| "js_div NInf (Fin b) = signed_inf (b < 0)"
| "js_div PInf PInf = NaN"
| "js_div PInf NInf = NaN"
| "js_div NInf PInf = NaN"
| "js_div NInf NInf = NaN"

text \<open>The comparison \<^verbatim>\<open><=\<close>: false as soon as one side is \<open>NaN\<close>.\<close>

fun js_le :: "jsnum \<Rightarrow> jsnum \<Rightarrow> bool" where
  "js_le NaN b = False"
| "js_le a NaN = False"
| "js_le NInf b = True"
| "js_le a PInf = True"
| "js_le (Fin a) (Fin b) = (a \<le> b)"
| "js_le PInf b = False"
| "js_le a NInf = False"

text \<open>
  \<^verbatim>\<open>Math.min\<close> and \<^verbatim>\<open>Math.max\<close> as functions of the list of the arguments they
  receive: \<open>Infinity\<close> and \<open>-Infinity\<close> with no argument, \<open>NaN\<close> as soon as one
  argument is \<open>NaN\<close>. A call that spreads an array into the arguments,
  \<^verbatim>\<open>Math.min(...xs)\<close>, can fail before the function is entered; that is
  \<open>spread_call\<close> below.
\<close>

definition js_min2 :: "jsnum \<Rightarrow> jsnum \<Rightarrow> jsnum" where
  "js_min2 a b = (if a = NaN \<or> b = NaN then NaN else if js_le a b then a else b)"

definition js_max2 :: "jsnum \<Rightarrow> jsnum \<Rightarrow> jsnum" where
  "js_max2 a b = (if a = NaN \<or> b = NaN then NaN else if js_le a b then b else a)"

definition Math_min :: "jsnum list \<Rightarrow> jsnum" where
  "Math_min xs = foldl js_min2 PInf xs"

definition Math_max :: "jsnum list \<Rightarrow> jsnum" where
  "Math_max xs = foldl js_max2 NInf xs"

text \<open>
  \<^verbatim>\<open>Math.pow(base, exponent)\<close>, case by case as the language defines it: a zero
  exponent gives 1 whatever the base, a negative base with a fractional exponent
  gives \<open>NaN\<close>, and a base of absolute value 1 with an infinite exponent gives \<open>NaN\<close>.
\<close>

definition is_integral :: "real \<Rightarrow> bool" where
  "is_integral e = (e = of_int \<lfloor>e\<rfloor>)"

definition is_odd_integral :: "real \<Rightarrow> bool" where
  "is_odd_integral e = (is_integral e \<and> odd \<lfloor>e\<rfloor>)"

fun Math_pow :: "jsnum \<Rightarrow> jsnum \<Rightarrow> jsnum" where
  "Math_pow b NaN = NaN"
| "Math_pow NaN (Fin e) = (if e = 0 then Fin 1 else NaN)"
| "Math_pow NaN e = NaN"
| "Math_pow PInf (Fin e) = (if e = 0 then Fin 1 else if 0 < e then PInf else Fin 0)"
| "Math_pow PInf PInf = PInf"
| "Math_pow PInf NInf = Fin 0"
| "Math_pow NInf (Fin e) =
     (if e = 0 then Fin 1
      else if 0 < e then (if is_odd_integral e then NInf else PInf)
      else Fin 0)"
| "Math_pow NInf PInf = PInf"
| "Math_pow NInf NInf = Fin 0"
| "Math_pow (Fin b) PInf =
     (if 1 < \<bar>b\<bar> then PInf else if \<bar>b\<bar> = 1 then NaN else Fin 0)"
| "Math_pow (Fin b) NInf =
     (if 1 < \<bar>b\<bar> then Fin 0 else if \<bar>b\<bar> = 1 then NaN else PInf)"
| "Math_pow (Fin b) (Fin e) =
     (if e = 0 then Fin 1
      else if 0 < b then Fin (b powr e)
      else if b = 0 then (if 0 < e then Fin 0 else PInf)
      else if is_integral e then Fin (b powi \<lfloor>e\<rfloor>)
      else NaN)"

text \<open>
  The remainder \<^verbatim>\<open>i % n\<close> on integers takes the sign of the dividend and is \<open>NaN\<close>
  for a zero divisor. \<^verbatim>\<open>~~v\<close> truncates towards zero and wraps to a signed 32-bit
  integer; \<open>NaN\<close> and the infinities become 0.
\<close>

definition js_rem :: "int \<Rightarrow> int \<Rightarrow> jsnum" where
  "js_rem i n = (if n = 0 then NaN else Fin (of_int (sgn i * (\<bar>i\<bar> mod \<bar>n\<bar>))))"

definition trunc :: "real \<Rightarrow> int" where
  "trunc r = (if 0 \<le> r then \<lfloor>r\<rfloor> else \<lceil>r\<rceil>)"

definition to_int32 :: "int \<Rightarrow> int" where
  "to_int32 n = (n + 2 ^ 31) mod 2 ^ 32 - 2 ^ 31"

fun double_tilde :: "jsnum \<Rightarrow> jsnum" where
  "double_tilde (Fin r) = Fin (of_int (to_int32 (trunc r)))"
| "double_tilde v = Fin 0"

section \<open>Rounding to a double\<close>

text \<open>
  An IEEE double has a significand of 53 bits. \<open>expo x\<close> is the binary exponent of
  \<open>x\<close>, \<open>round_even\<close> rounds to the nearest integer with ties to the even one, and
  \<open>round_to p x\<close> rounds \<open>x\<close> to the nearest multiple of \<open>2 ^ (expo x - p)\<close>. A result
  beyond the largest finite double overflows to an infinity. Gradual underflow is
  not modelled: the exponent is not bounded below.
\<close>

definition round_even :: "real \<Rightarrow> int" where
  "round_even y =
     (let f = \<lfloor>y\<rfloor> in
      if y - of_int f < 1 / 2 then f
      else if 1 / 2 < y - of_int f then f + 1
      else if even f then f else f + 1)"

definition expo :: "real \<Rightarrow> int" where
  "expo x = \<lfloor>log 2 \<bar>x\<bar>\<rfloor>"

definition round_to :: "nat \<Rightarrow> real \<Rightarrow> real" where
  "round_to p x =
     (if x = 0 then 0
      else of_int (round_even (x / 2 powi (expo x - int p))) * 2 powi (expo x - int p))"

definition round_double :: "real \<Rightarrow> real" where
  "round_double x = round_to 52 x"

definition max_finite :: "nat \<Rightarrow> int \<Rightarrow> real" where
  "max_finite p emax = (2 ^ Suc p - 1) * 2 powi (emax - int p)"

definition max_double :: real where
  "max_double = max_finite 52 1023"

fun js_round :: "jsnum \<Rightarrow> jsnum" where
  "js_round (Fin x) =
     (if max_double < \<bar>round_double x\<bar> then signed_inf (0 < x) else Fin (round_double x))"
| "js_round v = v"

text \<open>The four operations on doubles: the exact result, rounded once.\<close>

definition fl_add :: "jsnum \<Rightarrow> jsnum \<Rightarrow> jsnum" where
  "fl_add a b = js_round (js_add a b)"

definition fl_sub :: "jsnum \<Rightarrow> jsnum \<Rightarrow> jsnum" where
  "fl_sub a b = js_round (js_sub a b)"

definition fl_mul :: "jsnum \<Rightarrow> jsnum \<Rightarrow> jsnum" where
  "fl_mul a b = js_round (js_mul a b)"

definition fl_div :: "jsnum \<Rightarrow> jsnum \<Rightarrow> jsnum" where
  "fl_div a b = js_round (js_div a b)"

section \<open>Spreading an array into the arguments of a call\<close>

text \<open>
  A call \<^verbatim>\<open>f(...xs)\<close> passes every element of the array as one argument. An engine
  accepts only so many arguments in a call and raises a \<open>RangeError\<close> beyond that.
  The language does not fix the number; it is the parameter \<open>arg_limit\<close> of the
  model. \<^verbatim>\<open>new Array(n)\<close> raises the same error unless \<open>n\<close> is an integer from 0
  to \<open>2^32 - 1\<close>.
\<close>

datatype js_error = RangeError

definition spread_call :: "nat \<Rightarrow> (jsnum list \<Rightarrow> jsnum) \<Rightarrow> jsnum list \<Rightarrow> js_error + jsnum" where
  "spread_call arg_limit f xs = (if arg_limit < length xs then Inl RangeError else Inr (f xs))"

section \<open>normaliseBetween\<close>

text \<open>
  \<^verbatim>\<open>Array.prototype.normaliseBetween\<close>: the minimum and the maximum of the array,
  each by a call that spreads the array, then every element mapped to
  \<open>((v - amin) * (max - min)) / (amax - amin) + min\<close>, each operation rounded to a
  double. There is no guard on \<open>amax - amin\<close>. The parameters \<open>min\<close> and \<open>max\<close> of
  the source are \<open>min_v\<close> and \<open>max_v\<close> here.
\<close>

definition normaliseBetween :: "nat \<Rightarrow> jsnum list \<Rightarrow> jsnum \<Rightarrow> jsnum \<Rightarrow> js_error + jsnum list" where
  "normaliseBetween arg_limit this min_v max_v =
     (case spread_call arg_limit Math_min this of
        Inl err \<Rightarrow> Inl err
      | Inr amin \<Rightarrow>
          (case spread_call arg_limit Math_max this of
             Inl err \<Rightarrow> Inl err
           | Inr amax \<Rightarrow>
               Inr (map (\<lambda>v. fl_add (fl_div (fl_mul (fl_sub v amin) (fl_sub max_v min_v))
                                            (fl_sub amax amin)) min_v) this)))"

text \<open>
  The map of \<open>normaliseBetween\<close> with the bounds 0 and 1 on finite values, for a
  minimum \<open>amin\<close> and a maximum \<open>amax\<close> of the array: the same four operations,
  each rounded.
\<close>

definition rescale01 :: "real \<Rightarrow> real \<Rightarrow> real \<Rightarrow> real" where
  "rescale01 amin amax v =
     round_double (round_double (round_double (round_double (v - amin) * 1)
                                  / round_double (amax - amin)) + 0)"

section \<open>Terrain.generate\<close>

text \<open>
  The inner helper \<open>nv\<close> rescales a sample of the base noise function, and \<open>Noise\<close>
  runs over the amplitudes with the two accumulators \<open>e\<close> and \<open>ampTotal\<close>, both
  starting at 0. The base noise function \<open>noise2D\<close> comes from the simplex-noise
  library and is a parameter here.
\<close>

type_synonym noise_fn = "jsnum \<Rightarrow> jsnum \<Rightarrow> jsnum"

definition nv :: "noise_fn \<Rightarrow> jsnum \<Rightarrow> jsnum \<Rightarrow> jsnum" where
  "nv noise nx ny = js_add (js_div (noise nx ny) (Fin 2)) (Fin (1 / 2))"

fun Noise_loop :: "noise_fn \<Rightarrow> jsnum \<Rightarrow> jsnum \<Rightarrow> jsnum list \<Rightarrow> jsnum \<times> jsnum \<Rightarrow> jsnum \<times> jsnum" where
  "Noise_loop noise x y [] (e, ampTotal) = (e, ampTotal)"
| "Noise_loop noise x y (amp # amplitudes) (e, ampTotal) =
     (let ampDiv = js_div (Fin 1) amp;
          ampTotal' = js_add ampTotal ampDiv;
          e' = js_add e (js_mul ampDiv (nv noise (js_mul x amp) (js_mul y amp)))
      in Noise_loop noise x y amplitudes (e', ampTotal'))"

definition Noise :: "noise_fn \<Rightarrow> jsnum list \<Rightarrow> jsnum \<Rightarrow> jsnum \<Rightarrow> jsnum \<Rightarrow> jsnum" where
  "Noise noise amplitudes exponent x y =
     (case Noise_loop noise x y amplitudes (Fin 0, Fin 0) of
        (e, ampTotal) \<Rightarrow> Math_pow (js_div e ampTotal) exponent)"

text \<open>
  Two base noise functions for evaluating the code at concrete inputs: one that
  returns a known constant, and \<open>js_sub\<close>, the difference of the two coordinates.
\<close>

definition const_noise :: "real \<Rightarrow> noise_fn" where
  "const_noise c nx ny = Fin c"

text \<open>
  The state of the \<open>Terrain\<close> object that \<open>generate\<close> reads and writes. The level
  of detail is an integer. The fields that hold three.js objects play no part in the
  synthesis and are left out.
\<close>

record Terrain =
  heightmap :: "jsnum list"
  mapSize :: int
  lod :: int
  noise2D :: noise_fn

text \<open>One pass of the loop body: the sample stored at index \<open>i\<close>.\<close>

definition cell :: "noise_fn \<Rightarrow> int \<Rightarrow> jsnum \<Rightarrow> jsnum \<Rightarrow> jsnum list \<Rightarrow> int \<Rightarrow> jsnum" where
  "cell noise l frequency exponent amplitudes i =
     (let x = js_rem i l;
          y = double_tilde (js_div (Fin (of_int i)) (Fin (of_int l)));
          nx = js_div x (js_div (Fin (of_int l)) frequency);
          ny = js_div y (js_div (Fin (of_int l)) frequency)
      in Noise noise amplitudes exponent nx ny)"

text \<open>
  The loop \<^verbatim>\<open>for (let i = 0; i < lod2; i++) nvs[i] = ...\<close> over the array allocated
  with \<open>lod2\<close> slots. An index outside the list cannot occur (\<open>0 \<le> i < lod2\<close>).
\<close>

function generate_loop ::
  "noise_fn \<Rightarrow> int \<Rightarrow> jsnum \<Rightarrow> jsnum \<Rightarrow> jsnum list \<Rightarrow> int \<Rightarrow> int \<Rightarrow> jsnum list \<Rightarrow> jsnum list" where
  "generate_loop noise l frequency exponent amplitudes lod2 i nvs =
     (if i < lod2
      then generate_loop noise l frequency exponent amplitudes lod2 (i + 1)
             (nvs[nat i := cell noise l frequency exponent amplitudes i])
      else nvs)"
  by pat_completeness auto
termination
  by (relation "measure (\<lambda>(noise, l, frequency, exponent, amplitudes, lod2, i, nvs). nat (lod2 - i))")
     auto

declare generate_loop.simps [simp del]

text \<open>
  \<open>generate\<close> itself. The parameter \<open>seed\<close> is not used by the body (the seed acts
  through \<open>noise2D\<close>, which \<open>updateSeed\<close> replaces). The slots of the fresh array are
  written as \<open>NaN\<close>, which is what an empty slot becomes in arithmetic; the loop
  overwrites every one of them. The body can raise at two places: the allocation
  of the array, before the loop, and the two spread calls of \<open>normaliseBetween\<close>,
  after it; in both cases \<open>this.heightmap\<close> is not assigned.
\<close>

definition generate ::
  "nat \<Rightarrow> Terrain \<Rightarrow> jsnum \<Rightarrow> jsnum \<Rightarrow> jsnum \<Rightarrow> jsnum list \<Rightarrow> bool \<Rightarrow> js_error + Terrain" where
  "generate arg_limit this seed frequency exponent amplitudes normalise =
     (let lod2 = lod this * lod this in
      if lod2 < 0 \<or> 2 ^ 32 - 1 < lod2 then Inl RangeError
      else
        let nvs = generate_loop (noise2D this) (lod this) frequency exponent amplitudes
                    lod2 0 (replicate (nat lod2) NaN)
        in if normalise
           then (case normaliseBetween arg_limit nvs (Fin 0) (Fin 1) of
                   Inl err \<Rightarrow> Inl err
                 | Inr hm \<Rightarrow> Inr (this\<lparr>heightmap := hm\<rparr>))
           else Inr (this\<lparr>heightmap := nvs\<rparr>))"

text \<open>The array \<open>nvs\<close> once the loop has ended: one sample per index, in index order.\<close>

definition grid :: "noise_fn \<Rightarrow> int \<Rightarrow> jsnum \<Rightarrow> jsnum \<Rightarrow> jsnum list \<Rightarrow> jsnum list" where
  "grid noise l frequency exponent amplitudes =
     map (\<lambda>k. cell noise l frequency exponent amplitudes (int k)) [0..<nat (l * l)]"

section \<open>The amplitude schedule of updateVars\<close>

text \<open>
  \<^verbatim>\<open>let amps = [1]; for (let i = 1; i < octv; i++) amps.push(amps[i - 1] + ampl)\<close>.
  A read past the end of the array gives \<open>undefined\<close>, and \<open>undefined + ampl\<close> is
  \<open>NaN\<close>.
\<close>

definition js_index :: "jsnum list \<Rightarrow> int \<Rightarrow> jsnum" where
  "js_index xs i = (if 0 \<le> i \<and> i < int (length xs) then xs ! nat i else NaN)"

function amps_loop :: "int \<Rightarrow> jsnum \<Rightarrow> int \<Rightarrow> jsnum list \<Rightarrow> jsnum list" where
  "amps_loop octv ampl i amps =
     (if i < octv
      then amps_loop octv ampl (i + 1) (amps @ [js_add (js_index amps (i - 1)) ampl])
      else amps)"
  by pat_completeness auto
termination
  by (relation "measure (\<lambda>(octv, ampl, i, amps). nat (octv - i))") auto

declare amps_loop.simps [simp del]

definition updateVars_amps :: "int \<Rightarrow> jsnum \<Rightarrow> jsnum list" where
  "updateVars_amps octv ampl = amps_loop octv ampl 1 [Fin 1]"

section \<open>The level of detail at startup\<close>


section \<open>Minimum and maximum of finite lists\<close>

lemma js_min2_Fin [simp]: "js_min2 (Fin a) (Fin b) = Fin (min a b)"
  by (simp add: js_min2_def min_def)

lemma js_max2_Fin [simp]: "js_max2 (Fin a) (Fin b) = Fin (max a b)"
  by (simp add: js_max2_def max_def)

lemma js_min2_PInf [simp]: "js_min2 PInf (Fin b) = Fin b"
  by (simp add: js_min2_def)

lemma js_max2_NInf [simp]: "js_max2 NInf (Fin b) = Fin b"
  by (simp add: js_max2_def)

lemma foldl_js_min2_Fin:
  "foldl js_min2 (Fin a) (map Fin vs) = Fin (Min (insert a (set vs)))"
proof (induction vs arbitrary: a)
  case Nil
  show ?case by simp
next
  case (Cons v vs)
  have "Min (insert (min a v) (set vs)) = Min (insert a (insert v (set vs)))"
    by (cases "set vs = {}") (simp_all add: min.assoc)
  with Cons show ?case by simp
qed

lemma foldl_js_max2_Fin:
  "foldl js_max2 (Fin a) (map Fin vs) = Fin (Max (insert a (set vs)))"
proof (induction vs arbitrary: a)
  case Nil
  show ?case by simp
next
  case (Cons v vs)
  have "Max (insert (max a v) (set vs)) = Max (insert a (insert v (set vs)))"
    by (cases "set vs = {}") (simp_all add: max.assoc)
  with Cons show ?case by simp
qed

lemma Math_min_Fin: "vs \<noteq> [] \<Longrightarrow> Math_min (map Fin vs) = Fin (Min (set vs))"
  by (cases vs) (simp_all add: Math_min_def foldl_js_min2_Fin)

lemma Math_max_Fin: "vs \<noteq> [] \<Longrightarrow> Math_max (map Fin vs) = Fin (Max (set vs))"
  by (cases vs) (simp_all add: Math_max_def foldl_js_max2_Fin)

lemma js_sub_Fin [simp]: "js_sub (Fin a) (Fin b) = Fin (a - b)"
  by (simp add: js_sub_def)

section \<open>Properties of the rounding\<close>

text \<open>
  The rounded significand of a positive value lies between \<open>2 ^ p\<close> and \<open>2 ^ (p + 1)\<close>.
  Hence the rounding of a positive value is positive, the rounding is monotone on
  the non-negative numbers, and a value that the rounding has produced is left
  unchanged by it.
\<close>

lemma round_even_of_int [simp]: "round_even (of_int n) = n"
  by (simp add: round_even_def)

lemma round_even_bounds: "\<lfloor>y\<rfloor> \<le> round_even y" "round_even y \<le> \<lfloor>y\<rfloor> + 1"
  by (simp_all add: round_even_def Let_def)

lemma round_even_mono:
  assumes "y \<le> z"
  shows "round_even y \<le> round_even z"
proof (cases "\<lfloor>y\<rfloor> = \<lfloor>z\<rfloor>")
  case True
  have "y - of_int \<lfloor>z\<rfloor> \<le> z - of_int \<lfloor>z\<rfloor>" using assms by simp
  then show ?thesis
    by (simp add: round_even_def Let_def True)
next
  case False
  have "\<lfloor>y\<rfloor> \<le> \<lfloor>z\<rfloor>" using assms by (rule floor_mono)
  with False have "\<lfloor>y\<rfloor> + 1 \<le> \<lfloor>z\<rfloor>" by simp
  with round_even_bounds(2) [of y] round_even_bounds(1) [of z] show ?thesis by linarith
qed

lemma powr_powi: "2 powr of_int k = (2::real) powi k"
  by (simp add: powr_real_of_int')

lemma expo_bounds:
  assumes "0 < x"
  shows "2 powi expo x \<le> x" and "x < 2 powi (expo x + 1)"
proof -
  have x: "2 powr log 2 x = x" using assms by simp
  have "of_int (expo x) \<le> log 2 x" "log 2 x < of_int (expo x + 1)"
    using assms by (simp_all add: expo_def)
  then have "2 powr of_int (expo x) \<le> 2 powr log 2 x" "2 powr log 2 x < 2 powr of_int (expo x + 1)"
    by (simp_all only: powr_le_cancel_iff powr_less_cancel_iff one_less_numeral_iff semiring_norm)
  then show "2 powi expo x \<le> x" and "x < 2 powi (expo x + 1)"
    by (simp_all only: powr_powi x)
qed

lemma expo_eq:
  assumes "2 powi e \<le> x" and "x < 2 powi (e + 1)"
  shows "expo x = e"
proof -
  have pos: "0 < x"
    using assms(1) by (rule less_le_trans [rotated]) simp
  then have x: "2 powr log 2 x = x" by simp
  have "2 powr of_int e \<le> 2 powr log 2 x" "2 powr log 2 x < 2 powr of_int (e + 1)"
    using assms by (simp_all only: powr_powi x)
  then have "of_int e \<le> log 2 x" "log 2 x < of_int (e + 1)"
    by (simp_all only: powr_le_cancel_iff powr_less_cancel_iff one_less_numeral_iff semiring_norm)
  then have "\<lfloor>log 2 x\<rfloor> = e" by (intro floor_unique) simp_all
  then show ?thesis using pos by (simp add: expo_def)
qed

lemma quantum_pos: "0 < (2::real) powi k"
  by simp

lemma powi_quantum: "(2::real) powi (e - int p) * 2 ^ p = 2 powi e"
  by (simp add: power_int_diff)

lemma powi_quantum_Suc: "(2::real) powi (e - int p) * 2 ^ Suc p = 2 powi (e + 1)"
proof -
  have "(2::real) powi (e - int p) * 2 ^ Suc p = 2 * (2 powi (e - int p) * 2 ^ p)" by simp
  also have "\<dots> = 2 * 2 powi e" by (simp only: powi_quantum)
  also have "\<dots> = 2 powi (e + 1)" by (simp add: power_int_add)
  finally show ?thesis .
qed

lemma mantissa_range:
  assumes "0 < x"
  shows "2 ^ p \<le> x / 2 powi (expo x - int p)" and "x / 2 powi (expo x - int p) < 2 ^ Suc p"
proof -
  let ?q = "(2::real) powi (expo x - int p)"
  have q: "0 < ?q" by (rule quantum_pos)
  have "?q * 2 ^ p \<le> x" "x < ?q * 2 ^ Suc p"
    using expo_bounds [OF assms] by (simp_all only: powi_quantum powi_quantum_Suc)
  then show "2 ^ p \<le> x / ?q" and "x / ?q < 2 ^ Suc p"
    using q by (simp_all only: pos_le_divide_eq pos_divide_less_eq mult.commute)
qed

lemma round_mantissa_range:
  assumes "0 < x"
  shows "2 ^ p \<le> round_even (x / 2 powi (expo x - int p))"
    and "round_even (x / 2 powi (expo x - int p)) \<le> 2 ^ Suc p"
proof -
  let ?y = "x / 2 powi (expo x - int p)"
  have "real_of_int (2 ^ p) \<le> ?y" using mantissa_range(1) [OF assms, of p] by simp
  then have "round_even (of_int (2 ^ p)) \<le> round_even ?y" by (rule round_even_mono)
  then show "2 ^ p \<le> round_even ?y" by (simp only: round_even_of_int)
  have "?y \<le> real_of_int (2 ^ Suc p)" using mantissa_range(2) [OF assms, of p] by simp
  then have "round_even ?y \<le> round_even (of_int (2 ^ Suc p))" by (rule round_even_mono)
  then show "round_even ?y \<le> 2 ^ Suc p" by (simp only: round_even_of_int)
qed

lemma round_to_range:
  assumes "0 < x"
  shows "2 powi expo x \<le> round_to p x" and "round_to p x \<le> 2 powi (expo x + 1)"
proof -
  let ?q = "(2::real) powi (expo x - int p)"
  let ?n = "round_even (x / ?q)"
  have q: "0 \<le> ?q" by simp
  have r: "round_to p x = of_int ?n * ?q" using assms by (simp add: round_to_def)
  have "real_of_int (2 ^ p) \<le> of_int ?n" "of_int ?n \<le> real_of_int (2 ^ Suc p)"
    using round_mantissa_range [OF assms, of p] by (simp_all only: of_int_le_iff)
  then have "real_of_int (2 ^ p) * ?q \<le> of_int ?n * ?q" "of_int ?n * ?q \<le> real_of_int (2 ^ Suc p) * ?q"
    using q by (simp_all only: mult_right_mono)
  moreover have "real_of_int (2 ^ p) * ?q = 2 powi expo x"
    using powi_quantum [of "expo x" p] by (simp add: mult.commute)
  moreover have "real_of_int (2 ^ Suc p) * ?q = 2 powi (expo x + 1)"
    using powi_quantum_Suc [of "expo x" p] by (simp add: mult.commute)
  ultimately show "2 powi expo x \<le> round_to p x" and "round_to p x \<le> 2 powi (expo x + 1)"
    by (simp_all only: r)
qed

lemma round_to_pos:
  assumes "0 < x"
  shows "0 < round_to p x"
proof -
  have "(0::real) < 2 powi expo x" by (rule quantum_pos)
  with round_to_range(1) [OF assms, of p] show ?thesis by linarith
qed

lemma expo_mono:
  assumes "0 < x" "x \<le> y"
  shows "expo x \<le> expo y"
  using assms by (simp add: expo_def floor_mono)

lemma round_to_mono:
  assumes "0 \<le> x" "x \<le> y"
  shows "round_to p x \<le> round_to p y"
proof (cases "x = 0")
  case True
  show ?thesis
  proof (cases "y = 0")
    case True
    with \<open>x = 0\<close> show ?thesis by simp
  next
    case False
    with assms True have "0 < y" by simp
    from round_to_pos [OF this, of p] True show ?thesis by (simp add: round_to_def)
  qed
next
  case False
  with assms have x: "0 < x" and y: "0 < y" by simp_all
  show ?thesis
  proof (cases "expo x = expo y")
    case True
    let ?q = "(2::real) powi (expo y - int p)"
    have "x / ?q \<le> y / ?q" using assms(2) by (simp add: divide_right_mono)
    then have "round_even (x / ?q) \<le> round_even (y / ?q)" by (rule round_even_mono)
    then have "real_of_int (round_even (x / ?q)) \<le> real_of_int (round_even (y / ?q))"
      by (simp only: of_int_le_iff)
    then have "of_int (round_even (x / ?q)) * ?q \<le> of_int (round_even (y / ?q)) * ?q"
      by (rule mult_right_mono) simp
    then show ?thesis using x y by (simp add: round_to_def True)
  next
    case False
    with expo_mono [OF x assms(2)] have "expo x + 1 \<le> expo y" by simp
    then have "(2::real) powi (expo x + 1) \<le> 2 powi expo y"
      by (intro power_int_increasing) simp_all
    with round_to_range(2) [OF x, of p] round_to_range(1) [OF y, of p] show ?thesis by linarith
  qed
qed

lemma round_to_representable:
  assumes "2 powi e \<le> x" and "x < 2 powi (e + 1)" and "x / 2 powi (e - int p) = of_int n"
  shows "round_to p x = x"
proof -
  have e: "expo x = e" using assms(1,2) by (rule expo_eq)
  have pos: "0 < x" using assms(1) by (rule less_le_trans [rotated]) simp
  have "round_even (x / 2 powi (e - int p)) = n" by (simp only: assms(3) round_even_of_int)
  then have "round_to p x = of_int n * 2 powi (e - int p)"
    using pos by (simp add: round_to_def e)
  also have "\<dots> = x" by (simp flip: assms(3))
  finally show ?thesis .
qed

lemma round_to_idem:
  assumes "0 \<le> x"
  shows "round_to p (round_to p x) = round_to p x"
proof (cases "x = 0")
  case True
  then show ?thesis by (simp add: round_to_def)
next
  case False
  with assms have x: "0 < x" by simp
  let ?e = "expo x"
  let ?q = "(2::real) powi (?e - int p)"
  let ?n = "round_even (x / ?q)"
  have r: "round_to p x = of_int ?n * ?q" using x by (simp add: round_to_def)
  show ?thesis
  proof (cases "?n = 2 ^ Suc p")
    case True
    then have "round_to p x = real_of_int (2 ^ Suc p) * ?q" by (simp only: r)
    also have "\<dots> = 2 powi (?e + 1)"
      using powi_quantum_Suc [of ?e p] by (simp add: mult.commute)
    finally have r2: "round_to p x = 2 powi (?e + 1)" .
    have "round_to p (2 powi (?e + 1)) = 2 powi (?e + 1)"
    proof (rule round_to_representable [where e = "?e + 1" and n = "2 ^ p"])
      show "(2::real) powi (?e + 1) \<le> 2 powi (?e + 1)" by simp
      show "(2::real) powi (?e + 1) < 2 powi (?e + 1 + 1)"
        by (rule power_int_strict_increasing) simp_all
      have "(2::real) powi (?e + 1 - int p) * 2 ^ p = 2 powi (?e + 1)" by (rule powi_quantum)
      then show "(2::real) powi (?e + 1) / 2 powi (?e + 1 - int p) = real_of_int (2 ^ p)"
        by (simp add: field_simps)
    qed
    then show ?thesis by (simp only: r2)
  next
    case False
    with round_mantissa_range(2) [OF x, of p] have "?n < 2 ^ Suc p" by simp
    then have "real_of_int ?n < real_of_int (2 ^ Suc p)" by (simp only: of_int_less_iff)
    then have "of_int ?n * ?q < real_of_int (2 ^ Suc p) * ?q"
      by (rule mult_strict_right_mono) (rule quantum_pos)
    moreover have "real_of_int (2 ^ Suc p) * ?q = 2 powi (?e + 1)"
      using powi_quantum_Suc [of ?e p] by (simp add: mult.commute)
    ultimately have up: "round_to p x < 2 powi (?e + 1)" by (simp only: r)
    show ?thesis
    proof (rule round_to_representable [where e = ?e and n = ?n])
      show "2 powi ?e \<le> round_to p x" by (rule round_to_range(1) [OF x])
      show "round_to p x < 2 powi (?e + 1)" by (rule up)
      show "round_to p x / ?q = of_int ?n" by (simp add: r)
    qed
  qed
qed

lemma round_to_0 [simp]: "round_to p 0 = 0"
  by (simp add: round_to_def)

lemma round_to_1 [simp]: "round_to p 1 = 1"
proof (rule round_to_representable [where e = 0 and n = "2 ^ p"])
  show "(2::real) powi 0 \<le> 1" by simp
  show "(1::real) < 2 powi (0 + 1)" by simp
  have "(2::real) powi (0 - int p) * 2 ^ p = 2 powi 0" by (rule powi_quantum)
  then show "(1::real) / 2 powi (0 - int p) = real_of_int (2 ^ p)"
    by (simp add: field_simps)
qed

text \<open>
  The rounding is an odd function, and its value at a given number can be read off
  once the exponent of the number is known.
\<close>

lemma round_even_uminus: "round_even (- y) = - round_even y"
proof (cases "y = of_int \<lfloor>y\<rfloor>")
  case True
  then obtain n where y: "y = of_int n" ..
  have "round_even (- y) = round_even (of_int (- n))" by (simp add: y)
  also have "\<dots> = - n" by (rule round_even_of_int)
  finally show ?thesis by (simp add: y)
next
  case False
  then have "of_int \<lfloor>y\<rfloor> \<noteq> y" by (rule not_sym)
  then have lt: "of_int \<lfloor>y\<rfloor> < y" by (rule le_neq_trans [OF of_int_floor_le])
  have fl: "\<lfloor>- y\<rfloor> = - \<lfloor>y\<rfloor> - 1"
    using lt by (intro floor_unique) linarith+
  show ?thesis
    using lt by (auto simp add: round_even_def Let_def fl)
qed

lemma round_to_uminus: "round_to p (- x) = - round_to p x"
  by (simp add: round_to_def expo_def round_even_uminus)





lemma max_finite_ge: "2 powi emax \<le> max_finite p emax"
proof -
  let ?q = "(2::real) powi (emax - int p)"
  have q: "0 < ?q" by (rule quantum_pos)
  have "(2::real) ^ p \<le> 2 ^ Suc p - 1"
    using one_le_power [of "2::real" p] by simp
  then have lower: "2 ^ p * ?q \<le> (2 ^ Suc p - 1) * ?q"
    using q by (simp only: mult_le_cancel_right_pos)
  have low: "2 ^ p * ?q = 2 powi emax"
    using powi_quantum [of emax p] by (simp only: mult.commute)
  show ?thesis
    using lower unfolding low max_finite_def .
qed

lemma max_finite_less: "max_finite p emax < 2 powi (emax + 1)"
proof -
  let ?q = "(2::real) powi (emax - int p)"
  have q: "0 < ?q" by (rule quantum_pos)
  have "(2::real) ^ Suc p - 1 < 2 ^ Suc p" by simp
  then have upper: "((2::real) ^ Suc p - 1) * ?q < 2 ^ Suc p * ?q"
    using q by (simp only: mult_less_cancel_right_pos)
  have up: "2 ^ Suc p * ?q = 2 powi (emax + 1)"
    using powi_quantum_Suc [of emax p] by (simp only: mult.commute)
  show ?thesis
    using upper unfolding up max_finite_def .
qed


text \<open>The largest finite double is a double, and not below 1.\<close>

lemma round_to_max_finite: "round_to p (max_finite p emax) = max_finite p emax"
proof (rule round_to_representable [where e = emax and n = "2 ^ Suc p - 1"])
  show "2 powi emax \<le> max_finite p emax" by (rule max_finite_ge)
  show "max_finite p emax < 2 powi (emax + 1)" by (rule max_finite_less)
  show "max_finite p emax / 2 powi (emax - int p) = real_of_int (2 ^ Suc p - 1)"
    by (simp add: max_finite_def)
qed

lemma round_double_max_double: "round_double max_double = max_double"
  by (simp only: round_double_def max_double_def round_to_max_finite)

lemma one_le_max_double: "1 \<le> max_double"
proof -
  have "(1::real) \<le> 2 ^ Suc 52 - 1"
    using one_le_power [of "2::real" 52] by simp
  moreover have "(1::real) \<le> 2 powi (1023 - int 52)"
    by (rule one_le_power_int) simp_all
  ultimately have "(1::real) * 1 \<le> (2 ^ Suc 52 - 1) * 2 powi (1023 - int 52)"
    by (intro mult_mono) simp_all
  then show ?thesis by (simp only: max_double_def max_finite_def mult_1)
qed

lemmas round_double_simps =
  round_to_0 [of 52, folded round_double_def]
  round_to_1 [of 52, folded round_double_def]

lemma round_double_mono: "0 \<le> x \<Longrightarrow> x \<le> y \<Longrightarrow> round_double x \<le> round_double y"
  unfolding round_double_def by (rule round_to_mono)

lemma round_double_idem: "0 \<le> x \<Longrightarrow> round_double (round_double x) = round_double x"
  unfolding round_double_def by (rule round_to_idem)

lemma round_double_pos: "0 < x \<Longrightarrow> 0 < round_double x"
  unfolding round_double_def by (rule round_to_pos)

lemma round_double_nonneg: "0 \<le> x \<Longrightarrow> 0 \<le> round_double x"
  using round_double_mono [of 0 x] by (simp add: round_double_simps)

lemma round_double_uminus: "round_double (- x) = - round_double x"
  unfolding round_double_def by (rule round_to_uminus)

lemma js_round_Fin:
  assumes "0 \<le> x" and "x \<le> max_double"
  shows "js_round (Fin x) = Fin (round_double x)"
proof -
  have "round_double x \<le> round_double max_double"
    using assms by (rule round_double_mono)
  then have "round_double x \<le> max_double" by (simp only: round_double_max_double)
  moreover have "0 \<le> round_double x" using assms(1) by (rule round_double_nonneg)
  ultimately show ?thesis by simp
qed

lemma js_round_0 [simp]: "js_round (Fin 0) = Fin 0"
  using js_round_Fin [of 0] one_le_max_double by (simp add: round_double_simps)

lemma js_round_1 [simp]: "js_round (Fin 1) = Fin 1"
  using js_round_Fin [of 1] one_le_max_double by (simp add: round_double_simps)



declare js_round.simps(1) [simp del]

section \<open>normaliseBetween on finite lists\<close>

lemma spread_call_ok: "length xs \<le> arg_limit \<Longrightarrow> spread_call arg_limit f xs = Inr (f xs)"
  by (simp add: spread_call_def)

lemma spread_call_RangeError: "arg_limit < length xs \<Longrightarrow> spread_call arg_limit f xs = Inl RangeError"
  by (simp add: spread_call_def)

lemma normaliseBetween_ok:
  "length xs \<le> arg_limit \<Longrightarrow>
   normaliseBetween arg_limit xs min_v max_v =
     Inr (map (\<lambda>v. fl_add (fl_div (fl_mul (fl_sub v (Math_min xs)) (fl_sub max_v min_v))
                                   (fl_sub (Math_max xs) (Math_min xs))) min_v) xs)"
  by (simp add: normaliseBetween_def spread_call_ok)

lemma normaliseBetween_RangeError:
  "arg_limit < length xs \<Longrightarrow> normaliseBetween arg_limit xs min_v max_v = Inl RangeError"
  by (simp add: normaliseBetween_def spread_call_RangeError)

lemma normaliseBetween_length:
  "normaliseBetween arg_limit xs min_v max_v = Inr out \<Longrightarrow> length out = length xs"
  by (cases "length xs \<le> arg_limit")
     (auto simp add: normaliseBetween_ok normaliseBetween_RangeError)

text \<open>
  With the bounds 0 and 1, a minimum \<open>amin\<close> below the maximum \<open>amax\<close> and a range
  \<open>amax - amin\<close> that does not overflow, no operation of the map leaves the finite
  numbers, and the map is \<open>rescale01\<close>.
\<close>

lemma rescale01_eq:
  assumes "amin \<le> v" and "amin \<le> amax"
  shows "rescale01 amin amax v =
         round_double (round_double (v - amin) / round_double (amax - amin))"
proof -
  let ?a = "round_double (v - amin)" and ?d = "round_double (amax - amin)"
  have a: "0 \<le> ?a" using assms(1) by (intro round_double_nonneg) simp
  have d: "0 \<le> ?d" using assms(2) by (intro round_double_nonneg) simp
  have "round_double (?a * 1) = ?a"
    using assms(1) by (simp add: round_double_idem)
  moreover have "round_double (round_double (?a / ?d) + 0) = round_double (?a / ?d)"
    using a d by (simp add: round_double_idem)
  ultimately show ?thesis by (simp only: rescale01_def)
qed

lemma rescale01_amin:
  assumes "amin \<le> amax"
  shows "rescale01 amin amax amin = 0"
  using assms by (simp add: rescale01_eq round_double_simps)

lemma rescale01_amax:
  assumes "amin < amax"
  shows "rescale01 amin amax amax = 1"
proof -
  have "0 < round_double (amax - amin)" using assms by (intro round_double_pos) simp
  then show ?thesis using assms by (simp add: rescale01_eq round_double_simps)
qed

lemma rescale01_mono:
  assumes "amin \<le> v" and "v \<le> w" and "amin \<le> amax"
  shows "rescale01 amin amax v \<le> rescale01 amin amax w"
proof -
  let ?d = "round_double (amax - amin)"
  have d: "0 \<le> ?d" using assms(3) by (intro round_double_nonneg) simp
  have a: "0 \<le> round_double (v - amin)" using assms(1) by (intro round_double_nonneg) simp
  have "round_double (v - amin) \<le> round_double (w - amin)"
    using assms(1,2) by (intro round_double_mono) simp_all
  then have "round_double (v - amin) / ?d \<le> round_double (w - amin) / ?d"
    using d by (rule divide_right_mono)
  moreover have "0 \<le> round_double (v - amin) / ?d" using a d by simp
  ultimately have "round_double (round_double (v - amin) / ?d)
      \<le> round_double (round_double (w - amin) / ?d)"
    by (intro round_double_mono)
  then show ?thesis using assms by (simp add: rescale01_eq)
qed

lemma rescale01_range:
  assumes "amin \<le> v" and "v \<le> amax" and "amin < amax"
  shows "0 \<le> rescale01 amin amax v" and "rescale01 amin amax v \<le> 1"
proof -
  have "rescale01 amin amax amin \<le> rescale01 amin amax v"
    using assms by (intro rescale01_mono) simp_all
  then show "0 \<le> rescale01 amin amax v" using assms(3) by (simp add: rescale01_amin)
  have "rescale01 amin amax v \<le> rescale01 amin amax amax"
    using assms by (intro rescale01_mono) simp_all
  then show "rescale01 amin amax v \<le> 1" using assms(3) by (simp add: rescale01_amax)
qed

lemma rescale01_element:
  assumes "amin \<le> v" and "v \<le> amax" and "amin < amax" and "amax - amin \<le> max_double"
  shows "fl_add (fl_div (fl_mul (fl_sub (Fin v) (Fin amin)) (fl_sub (Fin 1) (Fin 0)))
                        (fl_sub (Fin amax) (Fin amin))) (Fin 0)
         = Fin (rescale01 amin amax v)"
proof -
  let ?a = "round_double (v - amin)" and ?d = "round_double (amax - amin)"
  let ?b = "round_double (?a * 1)"
  let ?c = "round_double (?b / ?d)"
  have d_pos: "0 < ?d" using assms(3) by (intro round_double_pos) simp
  have "?d \<le> round_double max_double"
    using assms(3,4) by (intro round_double_mono) simp_all
  then have d_max: "?d \<le> max_double" by (simp only: round_double_max_double)
  have a0: "0 \<le> ?a" using assms(1) by (intro round_double_nonneg) simp
  have a_d: "?a \<le> ?d" using assms(1,2) by (intro round_double_mono) simp_all
  have b_eq: "?b = ?a" using assms(1) by (simp add: round_double_idem)
  have q0: "0 \<le> ?b / ?d" using a0 d_pos unfolding b_eq by simp
  have c0: "0 \<le> ?c" using q0 by (rule round_double_nonneg)
  have q1: "?b / ?d \<le> 1" using a_d d_pos unfolding b_eq by simp
  have "?c \<le> round_double 1" using q0 q1 by (rule round_double_mono)
  then have c1: "?c \<le> 1" by (simp only: round_double_simps)
  have s1: "fl_sub (Fin v) (Fin amin) = Fin ?a"
    using assms(1,2,4) by (simp add: fl_sub_def js_round_Fin)
  have s2: "fl_sub (Fin 1) (Fin 0) = Fin 1"
    by (simp add: fl_sub_def)
  have s3: "fl_mul (Fin ?a) (Fin 1) = Fin ?b"
    using a0 a_d d_max by (simp add: fl_mul_def js_round_Fin)
  have s4: "fl_sub (Fin amax) (Fin amin) = Fin ?d"
    using assms(3,4) by (simp add: fl_sub_def js_round_Fin)
  have s5: "fl_div (Fin ?b) (Fin ?d) = Fin ?c"
  proof -
    have "js_div (Fin ?b) (Fin ?d) = Fin (?b / ?d)" using d_pos by simp
    moreover have "?b / ?d \<le> max_double"
      using q1 one_le_max_double by linarith
    ultimately show ?thesis using q0 by (simp add: fl_div_def js_round_Fin)
  qed
  have s6: "fl_add (Fin ?c) (Fin 0) = Fin (round_double (?c + 0))"
    using c0 c1 one_le_max_double by (simp add: fl_add_def js_round_Fin)
  show ?thesis
    by (simp only: s1 s2 s3 s4 s5 s6 rescale01_def)
qed

lemma nonconstant_Min_Max:
  assumes "a \<in> set vs" "b \<in> set vs" "a \<noteq> (b::real)"
  shows "Min (set vs) < Max (set vs)"
proof -
  have "Min (set vs) \<le> min a b" using assms by simp
  moreover have "max a b \<le> Max (set vs)" using assms by simp
  moreover have "min a b < max a b" using assms by (simp add: min_def max_def)
  ultimately show ?thesis by linarith
qed

lemma normaliseBetween_rescale01:
  assumes "a \<in> set vs" "b \<in> set vs" "a \<noteq> b"
    and "length vs \<le> arg_limit" and "Max (set vs) - Min (set vs) \<le> max_double"
  shows "normaliseBetween arg_limit (map Fin vs) (Fin 0) (Fin 1) =
         Inr (map Fin (map (rescale01 (Min (set vs)) (Max (set vs))) vs))"
proof -
  let ?m = "Min (set vs)" and ?M = "Max (set vs)"
  have ne: "vs \<noteq> []" using assms(1) by auto
  have lt: "?m < ?M" by (rule nonconstant_Min_Max [OF assms(1-3)])
  have "map (\<lambda>v. fl_add (fl_div (fl_mul (fl_sub (Fin v) (Fin ?m)) (fl_sub (Fin 1) (Fin 0)))
                        (fl_sub (Fin ?M) (Fin ?m))) (Fin 0)) vs
        = map (\<lambda>v. Fin (rescale01 ?m ?M v)) vs"
  proof (rule map_cong [OF refl])
    fix v assume "v \<in> set vs"
    then have "?m \<le> v" "v \<le> ?M" by simp_all
    then show "fl_add (fl_div (fl_mul (fl_sub (Fin v) (Fin ?m)) (fl_sub (Fin 1) (Fin 0)))
                        (fl_sub (Fin ?M) (Fin ?m))) (Fin 0) = Fin (rescale01 ?m ?M v)"
      using lt assms(5) by (rule rescale01_element)
  qed
  then show ?thesis
    using assms(4) ne
    by (simp add: normaliseBetween_ok Math_min_Fin Math_max_Fin comp_def)
qed

lemma rescale01_list_range:
  assumes "a \<in> set vs" "b \<in> set vs" "a \<noteq> b"
  defines "rs \<equiv> map (rescale01 (Min (set vs)) (Max (set vs))) vs"
  shows "Min (set rs) = 0" and "Max (set rs) = 1"
    and "\<forall>r\<in>set rs. 0 \<le> r \<and> r \<le> 1"
proof -
  let ?m = "Min (set vs)" and ?M = "Max (set vs)"
  have lt: "?m < ?M" by (rule nonconstant_Min_Max [OF assms(1-3)])
  have ne: "set vs \<noteq> {}" using assms(1) by auto
  have m_in: "?m \<in> set vs" and M_in: "?M \<in> set vs"
    using ne by (simp_all add: Min_in Max_in)
  have lo_in: "0 \<in> set rs"
    unfolding rs_def using m_in rescale01_amin [of ?m ?M] lt by force
  have hi_in: "1 \<in> set rs"
    unfolding rs_def using M_in rescale01_amax [OF lt] by force
  have bounds: "0 \<le> r \<and> r \<le> 1" if "r \<in> set rs" for r
  proof -
    from that obtain v where v: "v \<in> set vs" and r: "r = rescale01 ?m ?M v"
      unfolding rs_def by auto
    have "?m \<le> v" "v \<le> ?M" using v by simp_all
    then show ?thesis unfolding r using lt by (simp add: rescale01_range)
  qed
  then show "\<forall>r\<in>set rs. 0 \<le> r \<and> r \<le> 1" by blast
  show "Min (set rs) = 0"
    using lo_in bounds by (intro Min_eqI) simp_all
  show "Max (set rs) = 1"
    using hi_in bounds by (intro Max_eqI) simp_all
qed

text \<open>
  On a constant list the range \<open>amax - amin\<close> is 0, and every element of the result
  is \<open>NaN\<close>, whatever the value is.
\<close>

lemma foldl_js_min2_replicate: "foldl js_min2 v (replicate n v) = v"
  by (induction n) (simp_all add: js_min2_def, (cases v; simp)+)

lemma foldl_js_max2_replicate: "foldl js_max2 v (replicate n v) = v"
  by (induction n) (simp_all add: js_max2_def, (cases v; simp)+)

lemma Math_min_replicate: "0 < n \<Longrightarrow> Math_min (replicate n v) = v"
proof (cases n)
  case 0
  then show "0 < n \<Longrightarrow> ?thesis" by simp
next
  case (Suc m)
  have "js_min2 PInf v = v" by (cases v) (simp_all add: js_min2_def)
  then show ?thesis
    by (simp add: Suc Math_min_def foldl_js_min2_replicate)
qed

lemma Math_max_replicate: "0 < n \<Longrightarrow> Math_max (replicate n v) = v"
proof (cases n)
  case 0
  then show "0 < n \<Longrightarrow> ?thesis" by simp
next
  case (Suc m)
  have "js_max2 NInf v = v" by (cases v) (simp_all add: js_max2_def)
  then show ?thesis
    by (simp add: Suc Math_max_def foldl_js_max2_replicate)
qed

lemma normaliseBetween_replicate:
  assumes "0 < n" and "n \<le> arg_limit"
  shows "normaliseBetween arg_limit (replicate n v) (Fin 0) (Fin 1) = Inr (replicate n NaN)"
proof -
  have "fl_add (fl_div (fl_mul (fl_sub v v) (fl_sub (Fin 1) (Fin 0))) (fl_sub v v)) (Fin 0) = NaN"
    by (cases v) (simp_all add: fl_add_def fl_div_def fl_mul_def fl_sub_def js_sub_def)
  then show ?thesis
    using assms
    by (simp add: normaliseBetween_ok Math_min_replicate Math_max_replicate map_replicate_const)
qed

section \<open>The loop of generate\<close>

text \<open>
  Started at index \<open>i\<close> on an array of \<open>lod2\<close> slots, the loop keeps the first \<open>i\<close>
  slots and fills the others with the samples of their indices.
\<close>

lemma generate_loop_eq:
  "0 \<le> i \<Longrightarrow> i \<le> lod2 \<Longrightarrow> length nvs = nat lod2 \<Longrightarrow>
   generate_loop noise l frequency exponent amplitudes lod2 i nvs =
   take (nat i) nvs @ map (\<lambda>k. cell noise l frequency exponent amplitudes (int k)) [nat i..<nat lod2]"
proof (induction noise l frequency exponent amplitudes lod2 i nvs rule: generate_loop.induct)
  case (1 noise l frequency exponent amplitudes lod2 i nvs)
  show ?case
  proof (cases "i < lod2")
    case False
    then have "generate_loop noise l frequency exponent amplitudes lod2 i nvs = nvs"
      by (subst generate_loop.simps) simp
    with False "1.prems" show ?thesis by simp
  next
    case True
    let ?c = "cell noise l frequency exponent amplitudes i"
    have len: "nat i < length nvs" using True "1.prems" by simp
    have step: "generate_loop noise l frequency exponent amplitudes lod2 i nvs =
          generate_loop noise l frequency exponent amplitudes lod2 (i + 1) (nvs[nat i := ?c])"
      using True by (subst generate_loop.simps) simp
    have ih: "generate_loop noise l frequency exponent amplitudes lod2 (i + 1) (nvs[nat i := ?c]) =
          take (nat (i + 1)) (nvs[nat i := ?c]) @
          map (\<lambda>k. cell noise l frequency exponent amplitudes (int k)) [nat (i + 1)..<nat lod2]"
      using True "1.prems" by (intro "1.IH") simp_all
    have suc: "nat (i + 1) = Suc (nat i)" using "1.prems"(1) by simp
    have tk: "take (Suc (nat i)) (nvs[nat i := ?c]) = take (nat i) nvs @ [?c]"
      using len by (simp add: take_Suc_conv_app_nth)
    have up: "[nat i..<nat lod2] = nat i # [Suc (nat i)..<nat lod2]"
      using True "1.prems"(1) by (intro upt_conv_Cons) simp
    have "int (nat i) = i" using "1.prems"(1) by simp
    then show ?thesis
      unfolding step ih suc tk up by simp
  qed
qed

lemma generate_eq:
  "generate arg_limit t seed frequency exponent amplitudes normalise =
     (if 2 ^ 32 - 1 < lod t * lod t then Inl RangeError
      else if normalise
      then (case normaliseBetween arg_limit
                   (grid (noise2D t) (lod t) frequency exponent amplitudes) (Fin 0) (Fin 1) of
              Inl err \<Rightarrow> Inl err
            | Inr hm \<Rightarrow> Inr (t\<lparr>heightmap := hm\<rparr>))
      else Inr (t\<lparr>heightmap := grid (noise2D t) (lod t) frequency exponent amplitudes\<rparr>))"
proof -
  have "generate_loop (noise2D t) (lod t) frequency exponent amplitudes (lod t * lod t) 0
          (replicate (nat (lod t * lod t)) NaN) =
        grid (noise2D t) (lod t) frequency exponent amplitudes"
    by (simp add: generate_loop_eq grid_def)
  then show ?thesis
    by (simp add: generate_def Let_def)
qed

lemma generate_raw:
  "lod t * lod t \<le> 2 ^ 32 - 1 \<Longrightarrow>
   generate arg_limit t seed frequency exponent amplitudes False =
     Inr (t\<lparr>heightmap := grid (noise2D t) (lod t) frequency exponent amplitudes\<rparr>)"
  by (simp add: generate_eq)

lemma generate_allocation_RangeError:
  "2 ^ 32 - 1 < lod t * lod t \<Longrightarrow>
   generate arg_limit t seed frequency exponent amplitudes normalise = Inl RangeError"
  by (simp add: generate_eq)


lemma length_grid: "length (grid noise l frequency exponent amplitudes) = nat (l * l)"
  by (simp add: grid_def)

text \<open>
  For a level of detail from 1 to 65535 the index arithmetic of the loop body stays
  in the integers: \<open>i % lod\<close> is \<open>i mod lod\<close> and \<open>~~(i / lod)\<close> is \<open>i div lod\<close>, with
  no 32-bit wrap.
\<close>

lemma to_int32_small: "- (2 ^ 31) \<le> n \<Longrightarrow> n < 2 ^ 31 \<Longrightarrow> to_int32 n = n"
  by (simp add: to_int32_def)

lemma trunc_div: "0 \<le> i \<Longrightarrow> 0 < l \<Longrightarrow> trunc (real_of_int i / real_of_int l) = i div l"
  by (simp add: trunc_def floor_divide_of_int_eq)

lemma cell_coordinates:
  assumes "1 \<le> l" "l \<le> 65535" "0 \<le> i" "i < l * l"
  shows "cell noise l frequency exponent amplitudes i =
         Noise noise amplitudes exponent
           (js_div (Fin (of_int (i mod l))) (js_div (Fin (of_int l)) frequency))
           (js_div (Fin (of_int (i div l))) (js_div (Fin (of_int l)) frequency))"
proof -
  have "sgn i * (\<bar>i\<bar> mod \<bar>l\<bar>) = i mod l"
  proof (cases "i = 0")
    case True
    then show ?thesis by simp
  next
    case False
    with assms(3) have "sgn i = 1" by simp
    with assms(1,3) show ?thesis by simp
  qed
  then have rem: "js_rem i l = Fin (of_int (i mod l))"
    using assms(1) by (simp add: js_rem_def)
  have "i div l < l"
  proof (rule ccontr)
    assume "\<not> i div l < l"
    then have "l * l \<le> l * (i div l)"
      using assms(1) by (intro mult_left_mono) simp_all
    moreover have "l * (i div l) + i mod l = i" by simp
    moreover have "0 \<le> i mod l" using assms(1) by simp
    ultimately show False using assms(4) by linarith
  qed
  then have small: "i div l < 2 ^ 31" using assms(2) by simp
  have nonneg: "0 \<le> i div l" using assms by (simp add: pos_imp_zdiv_nonneg_iff)
  have "double_tilde (js_div (Fin (of_int i)) (Fin (of_int l))) = Fin (of_int (i div l))"
    using assms small nonneg by (simp add: trunc_div to_int32_small)
  with rem show ?thesis by (simp add: cell_def Let_def)
qed

section \<open>Noise as a weighted average\<close>

text \<open>
  On finite coordinates, non-zero finite amplitudes and a base noise function with
  finite values \<open>g\<close>, the two accumulators of \<open>Noise\<close> are the two sums.
\<close>

lemma Noise_loop_Fin:
  assumes "\<forall>a\<in>set as. a \<noteq> 0" and "\<forall>u v. noise (Fin u) (Fin v) = Fin (g u v)"
  shows "Noise_loop noise (Fin x) (Fin y) (map Fin as) (Fin e, Fin t) =
         (Fin (e + (\<Sum>a\<leftarrow>as. (1 / a) * (g (x * a) (y * a) / 2 + 1 / 2))),
          Fin (t + (\<Sum>a\<leftarrow>as. 1 / a)))"
  using assms(1)
proof (induction as arbitrary: e t)
  case Nil
  show ?case by simp
next
  case (Cons a as)
  then have "a \<noteq> 0" and rest: "\<forall>a\<in>set as. a \<noteq> 0" by simp_all
  then show ?case
    by (simp add: Cons.IH [OF rest] nv_def assms(2) Let_def add.assoc)
qed

lemma sum_list_inverse_pos:
  assumes "as \<noteq> []" and "\<forall>a\<in>set as. 0 < (a::real)"
  shows "0 < (\<Sum>a\<leftarrow>as. 1 / a)"
  using assms
proof (induction as)
  case Nil
  then show ?case by simp
next
  case (Cons a as)
  have "0 \<le> (\<Sum>a\<leftarrow>as. 1 / a)"
    using Cons.prems(2) by (intro sum_list_nonneg) auto
  moreover have "0 < 1 / a" using Cons.prems(2) by simp
  ultimately have "0 < 1 / a + (\<Sum>a\<leftarrow>as. 1 / a)"
    by (rule add_pos_nonneg [rotated])
  then show ?case by simp
qed

lemma Noise_Fin:
  assumes "as \<noteq> []" and "\<forall>a\<in>set as. 0 < a"
    and "\<forall>u v. noise (Fin u) (Fin v) = Fin (g u v)"
  shows "Noise noise (map Fin as) exponent (Fin x) (Fin y) =
         Math_pow (Fin ((\<Sum>a\<leftarrow>as. (1 / a) * (g (x * a) (y * a) / 2 + 1 / 2))
                         / (\<Sum>a\<leftarrow>as. 1 / a))) exponent"
proof -
  have nz: "\<forall>a\<in>set as. a \<noteq> 0" using assms(2) by auto
  have "(\<Sum>a\<leftarrow>as. 1 / a) \<noteq> 0"
    using sum_list_inverse_pos [OF assms(1,2)] by simp
  then show ?thesis
    by (simp add: Noise_def Noise_loop_Fin [OF nz assms(3)])
qed




section \<open>The grid returned by generate\<close>

lemma js_div_coordinate:
  "l \<noteq> 0 \<Longrightarrow> f \<noteq> 0 \<Longrightarrow>
   js_div (Fin c) (js_div (Fin l) (Fin f)) = Fin (c / (l / f))"
  by simp

lemma grid_nth:
  assumes "1 \<le> l" and "l \<le> 65535" and "1 \<le> f" and i: "i < nat (l * l)"
  shows "grid noise l (Fin f) exponent amplitudes ! i =
         Noise noise amplitudes exponent
           (Fin (real (i mod nat l) / (real_of_int l / f)))
           (Fin (real (i div nat l) / (real_of_int l / f)))"
proof -
  have lt: "int i < l * l" using i by simp
  obtain n where n: "l = int n"
    using assms(1) by (cases l) simp_all
  have "int i mod int n = int (i mod n)" and "int i div int n = int (i div n)"
    by (simp_all only: zmod_int zdiv_int)
  then have m: "real_of_int (int i mod l) = real (i mod nat l)"
    and d: "real_of_int (int i div l) = real (i div nat l)"
    unfolding n by (simp_all only: nat_int of_int_of_nat_eq)
  have "grid noise l (Fin f) exponent amplitudes ! i =
        cell noise l (Fin f) exponent amplitudes (int i)"
    using i by (simp add: grid_def)
  also have "\<dots> = Noise noise amplitudes exponent
         (js_div (Fin (of_int (int i mod l))) (js_div (Fin (of_int l)) (Fin f)))
         (js_div (Fin (of_int (int i div l))) (js_div (Fin (of_int l)) (Fin f)))"
    using assms(1,2) lt by (intro cell_coordinates) simp_all
  finally show ?thesis
    using assms(1,3) by (simp add: m d)
qed

lemma allocation_fits:
  assumes "1 \<le> l" and "l \<le> (65535::int)"
  shows "l * l \<le> 2 ^ 32 - 1"
proof -
  have "l * l \<le> 65535 * 65535"
    using assms by (intro mult_mono) simp_all
  then show ?thesis by simp
qed

lemma allocation_exceeds:
  assumes "(65536::int) \<le> l"
  shows "2 ^ 32 - 1 < l * l"
proof -
  have "65536 * 65536 \<le> l * l"
    using assms by (intro mult_mono) simp_all
  then show ?thesis by simp
qed

text \<open>
  Claim C2, as amended. For a level of detail from 1 to 65535 and a finite frequency
  of at least 1 (any exponent, schedule and base noise function), \<open>generate\<close>
  without normalisation stores a flat sequence of exactly \<open>lod * lod\<close> values, where
  the value at each index \<open>i\<close> below \<open>lod * lod\<close> is \<open>Noise\<close> at
  \<open>nx = (i mod lod) / (lod / frequency)\<close> and \<open>ny = (i div lod) / (lod / frequency)\<close>.
  For every level of detail from 65536 on, \<open>generate\<close> raises a \<open>RangeError\<close>
  (the allocation of the array), whatever the other arguments are.
\<close>

theorem generate_row_major:
  "(1 \<le> lod t \<and> lod t \<le> 65535 \<and> 1 \<le> f \<longrightarrow>
      (\<exists>hm. generate arg_limit t seed (Fin f) exponent amplitudes False
                = Inr (t\<lparr>heightmap := hm\<rparr>)
            \<and> length hm = nat (lod t * lod t)
            \<and> (\<forall>i < nat (lod t * lod t).
                  hm ! i = Noise (noise2D t) amplitudes exponent
                             (Fin (real (i mod nat (lod t)) / (real_of_int (lod t) / f)))
                             (Fin (real (i div nat (lod t)) / (real_of_int (lod t) / f))))))
   \<and> (65536 \<le> lod t \<longrightarrow>
        generate arg_limit t seed frequency exponent amplitudes normalise = Inl RangeError)"
proof (intro conjI impI)
  assume "1 \<le> lod t \<and> lod t \<le> 65535 \<and> 1 \<le> f"
  then have l: "1 \<le> lod t" "lod t \<le> 65535" and f: "1 \<le> f" by simp_all
  let ?g = "grid (noise2D t) (lod t) (Fin f) exponent amplitudes"
  have "generate arg_limit t seed (Fin f) exponent amplitudes False = Inr (t\<lparr>heightmap := ?g\<rparr>)"
    using allocation_fits [OF l] by (rule generate_raw)
  moreover have "length ?g = nat (lod t * lod t)" by (rule length_grid)
  moreover have "\<forall>i < nat (lod t * lod t).
      ?g ! i = Noise (noise2D t) amplitudes exponent
                 (Fin (real (i mod nat (lod t)) / (real_of_int (lod t) / f)))
                 (Fin (real (i div nat (lod t)) / (real_of_int (lod t) / f)))"
    using grid_nth [OF l f] by blast
  ultimately show "\<exists>hm. generate arg_limit t seed (Fin f) exponent amplitudes False
                = Inr (t\<lparr>heightmap := hm\<rparr>)
            \<and> length hm = nat (lod t * lod t)
            \<and> (\<forall>i < nat (lod t * lod t).
                  hm ! i = Noise (noise2D t) amplitudes exponent
                             (Fin (real (i mod nat (lod t)) / (real_of_int (lod t) / f)))
                             (Fin (real (i div nat (lod t)) / (real_of_int (lod t) / f))))"
    by blast
next
  assume "65536 \<le> lod t"
  then have "2 ^ 32 - 1 < lod t * lod t" by (rule allocation_exceeds)
  then show "generate arg_limit t seed frequency exponent amplitudes normalise = Inl RangeError"
    by (rule generate_allocation_RangeError)
qed

theorem generate_row_major_witness:
  "((1::int) \<le> 2 \<and> (2::int) \<le> 65535 \<and> (1::real) \<le> 2)
   \<and> (\<exists>hm.
         generate 65536 \<lparr>heightmap = [], mapSize = 20, lod = 2, noise2D = js_sub\<rparr>
           (Fin 7) (Fin 2) (Fin 1) [Fin 1] False
         = Inr \<lparr>heightmap = hm, mapSize = 20, lod = 2, noise2D = js_sub\<rparr>
       \<and> length hm = 4
       \<and> hm ! 1 = Noise js_sub [Fin 1] (Fin 1) (Fin 1) (Fin 0))
   \<and> (65536::int) \<le> 70000
   \<and> generate 65536 \<lparr>heightmap = [], mapSize = 700000, lod = 70000, noise2D = js_sub\<rparr>
           (Fin 7) (Fin 2) (Fin 1) [Fin 1] True = Inl RangeError"
proof -
  let ?t = "\<lparr>heightmap = [], mapSize = 20, lod = 2, noise2D = js_sub\<rparr>"
  let ?u = "\<lparr>heightmap = [], mapSize = 700000, lod = 70000, noise2D = js_sub\<rparr>"
  note small = generate_row_major [of ?t 2 65536 "Fin 7" "Fin 1" "[Fin 1]", THEN conjunct1]
  note large = generate_row_major [of ?u 1 65536 "Fin 7" "Fin 1" "[Fin 1]" "Fin 2" True,
      THEN conjunct2]
  have range: "(1::int) \<le> 2 \<and> (2::int) \<le> 65535 \<and> (1::real) \<le> 2" by simp
  from small obtain hm where
    raw: "generate 65536 ?t (Fin 7) (Fin 2) (Fin 1) [Fin 1] False = Inr (?t\<lparr>heightmap := hm\<rparr>)"
    and len: "length hm = nat (2 * 2)"
    and nth: "\<forall>i < nat (2 * 2). hm ! i = Noise js_sub [Fin 1] (Fin 1)
        (Fin (real (i mod nat 2) / (real_of_int 2 / 2)))
        (Fin (real (i div nat 2) / (real_of_int 2 / 2)))"
    by auto
  have "(1::nat) < nat (2 * 2)" by simp
  with nth have "hm ! 1 = Noise js_sub [Fin 1] (Fin 1)
        (Fin (real (1 mod nat 2) / (real_of_int 2 / 2)))
        (Fin (real (1 div nat 2) / (real_of_int 2 / 2)))"
    by blast
  then have one: "hm ! 1 = Noise js_sub [Fin 1] (Fin 1) (Fin 1) (Fin 0)" by simp
  have first: "\<exists>hm.
         generate 65536 ?t (Fin 7) (Fin 2) (Fin 1) [Fin 1] False
         = Inr \<lparr>heightmap = hm, mapSize = 20, lod = 2, noise2D = js_sub\<rparr>
       \<and> length hm = 4
       \<and> hm ! 1 = Noise js_sub [Fin 1] (Fin 1) (Fin 1) (Fin 0)"
    using raw len one by (intro exI [of _ hm]) simp
  have big: "(65536::int) \<le> 70000" by simp
  from large have second: "generate 65536 ?u (Fin 7) (Fin 2) (Fin 1) [Fin 1] True = Inl RangeError"
    by simp
  show ?thesis
    by (intro conjI range [THEN conjunct1] range [THEN conjunct2, THEN conjunct1]
        range [THEN conjunct2, THEN conjunct2] first big second)
qed

text \<open>
  Claim C2 as it is stated, for every level of detail of at least 1, fails at
  \<open>lod = 65536\<close>: an array of \<open>2^32\<close> slots cannot be allocated and \<open>generate\<close> raises
  a \<open>RangeError\<close>.
\<close>

theorem generate_lod_65536_RangeError:
  "generate 65536 \<lparr>heightmap = [], mapSize = 655360, lod = 65536, noise2D = const_noise 0\<rparr>
     (Fin 7) (Fin 1) (Fin 1) [Fin 1] False = Inl RangeError"
  by (simp add: generate_def)

section \<open>No validation of the parameters\<close>

text \<open>
  Claim C7 says that \<open>generate\<close> rejects a level of detail below 1 and a frequency
  of at most 0. The code checks neither: with \<open>lod = 0\<close> it stores an empty grid, and
  with \<open>frequency = 0\<close> every index is sampled at the origin (\<open>lod / 0\<close> is
  \<open>Infinity\<close>), here with the constant noise 0 and \<open>lod = 2\<close>.
\<close>

theorem generate_accepts_invalid_parameters:
  "generate 65536 \<lparr>heightmap = [Fin 1], mapSize = 0, lod = 0, noise2D = const_noise 0\<rparr>
     (Fin 7) (Fin 1) (Fin 1) [Fin 1] False
   = Inr \<lparr>heightmap = [], mapSize = 0, lod = 0, noise2D = const_noise 0\<rparr>
   \<and> generate 65536 \<lparr>heightmap = [], mapSize = 20, lod = 2, noise2D = const_noise 0\<rparr>
     (Fin 7) (Fin 0) (Fin 1) [Fin 1] False
   = Inr \<lparr>heightmap = [Fin (1 / 2), Fin (1 / 2), Fin (1 / 2), Fin (1 / 2)],
          mapSize = 20, lod = 2, noise2D = const_noise 0\<rparr>"
  by (simp add: generate_eq grid_def cell_def Noise_def nv_def js_rem_def trunc_def
      to_int32_def const_noise_def upt_rec signed_inf_def)

text \<open>
  Claim C7, as amended. \<open>generate\<close> does not reject an invalid combination of
  parameters: for a level of detail below 1 or a frequency of at most 0, and
  \<open>lod * lod\<close> within the length of an array, \<open>generate\<close> without normalisation runs
  the loop and stores a grid of \<open>lod * lod\<close> values.
\<close>

theorem generate_no_validation:
  assumes "lod t < 1 \<or> js_le frequency (Fin 0)" and "lod t * lod t \<le> 2 ^ 32 - 1"
  shows "\<exists>hm. generate arg_limit t seed frequency exponent amplitudes False
               = Inr (t\<lparr>heightmap := hm\<rparr>)
           \<and> length hm = nat (lod t * lod t)"
  using generate_raw [OF assms(2)] length_grid by blast

theorem generate_no_validation_witness:
  "((- 1 :: int) < 1 \<or> js_le (Fin (- 3)) (Fin 0))
   \<and> (- 1) * (- 1) \<le> (2 ^ 32 - 1 :: int)
   \<and> (\<exists>hm. generate 65536 \<lparr>heightmap = [], mapSize = - 10, lod = - 1, noise2D = js_sub\<rparr>
              (Fin 7) (Fin (- 3)) (Fin 1) [Fin 1] False
            = Inr \<lparr>heightmap = hm, mapSize = - 10, lod = - 1, noise2D = js_sub\<rparr>
          \<and> length hm = 1)"
  using generate_no_validation
    [of "\<lparr>heightmap = [], mapSize = - 10, lod = - 1, noise2D = js_sub\<rparr>"
        "Fin (- 3)" 65536 "Fin 7" "Fin 1" "[Fin 1]"]
  by simp

section \<open>Determinism\<close>

text \<open>
  Claim C8. \<open>generate\<close> is deterministic: two calls on \<open>Terrain\<close> states with the
  same base noise function and the same level of detail, with the same frequency,
  exponent, amplitude schedule and normalise flag, end alike (both raise, or both
  store the same sequence). The previous heightmap, the map size and the \<open>seed\<close>
  argument have no influence.
\<close>

theorem generate_deterministic:
  assumes "noise2D t1 = noise2D t2" and "lod t1 = lod t2"
  shows "map_sum id heightmap (generate arg_limit t1 seed1 frequency exponent amplitudes normalise)
       = map_sum id heightmap (generate arg_limit t2 seed2 frequency exponent amplitudes normalise)"
  using assms by (simp add: generate_eq split: sum.splits)

theorem generate_deterministic_witness:
  "noise2D \<lparr>heightmap = [], mapSize = 20, lod = 2, noise2D = js_sub\<rparr>
     = noise2D \<lparr>heightmap = [Fin 9], mapSize = 30, lod = 2, noise2D = js_sub\<rparr>
   \<and> lod \<lparr>heightmap = [], mapSize = 20, lod = 2, noise2D = js_sub\<rparr>
     = lod \<lparr>heightmap = [Fin 9], mapSize = 30, lod = 2, noise2D = js_sub\<rparr>
   \<and> map_sum id heightmap
        (generate 65536 \<lparr>heightmap = [], mapSize = 20, lod = 2, noise2D = js_sub\<rparr>
           (Fin 7) (Fin 2) (Fin 1) [Fin 1] True)
     = map_sum id heightmap
        (generate 65536 \<lparr>heightmap = [Fin 9], mapSize = 30, lod = 2, noise2D = js_sub\<rparr>
           (Fin 8) (Fin 2) (Fin 1) [Fin 1] True)"
  using generate_deterministic
    [of "\<lparr>heightmap = [], mapSize = 20, lod = 2, noise2D = js_sub\<rparr>"
        "\<lparr>heightmap = [Fin 9], mapSize = 30, lod = 2, noise2D = js_sub\<rparr>"
        65536 "Fin 7" "Fin 2" "Fin 1" "[Fin 1]" True "Fin 8"]
  by simp

section \<open>Normalisation of the grid\<close>

lemma generate_normalise:
  assumes "generate arg_limit t seed frequency exponent amplitudes False = Inr t'"
  shows "generate arg_limit t seed frequency exponent amplitudes True =
         (case normaliseBetween arg_limit (heightmap t') (Fin 0) (Fin 1) of
            Inl err \<Rightarrow> Inl err
          | Inr hm \<Rightarrow> Inr (t'\<lparr>heightmap := hm\<rparr>))"
proof -
  have ok: "\<not> 2 ^ 32 - 1 < lod t * lod t"
    using assms by (auto simp add: generate_eq split: if_splits)
  then have "t' = t\<lparr>heightmap := grid (noise2D t) (lod t) frequency exponent amplitudes\<rparr>"
    using assms by (simp add: generate_eq)
  then show ?thesis
    using ok by (simp add: generate_eq split: sum.splits)
qed

text \<open>Evaluating the rounding at a given value, from the exponent of the value.\<close>

lemma scaled: "x / 2 powi (e - int p) = x * 2 ^ p / (2::real) powi e"
proof -
  have "x * 2 ^ p / (2 powi (e - int p) * 2 ^ p) = x / 2 powi (e - int p)"
    by (rule mult_divide_mult_cancel_right) simp
  then show ?thesis by (simp only: powi_quantum)
qed


lemmas scaled_52 = scaled [of _ _ 52]

lemma round_double_exact:
  assumes "2 powi e \<le> x" and "x < 2 powi (e + 1)" and "x * 2 ^ 52 / 2 powi e = of_int n"
  shows "round_double x = x"
  unfolding round_double_def
proof (rule round_to_representable [where e = e and n = n])
  show "x / 2 powi (e - int 52) = of_int n"
    using assms(3) by (simp only: scaled_52)
qed (rule assms(1), rule assms(2))



lemma four_le_max_double: "4 \<le> max_double"
proof -
  have "(2::real) powi 2 \<le> 2 powi 1023" by (rule power_int_increasing) simp_all
  also have "\<dots> \<le> max_double"
    unfolding max_double_def by (rule max_finite_ge)
  finally show ?thesis by simp
qed

lemma round_double_abs_le:
  assumes "\<bar>x\<bar> \<le> max_double"
  shows "\<bar>round_double x\<bar> \<le> max_double"
proof -
  have "round_double \<bar>x\<bar> \<le> round_double max_double"
    using assms by (intro round_double_mono) simp_all
  then have "round_double \<bar>x\<bar> \<le> max_double" by (simp only: round_double_max_double)
  moreover have "\<bar>round_double x\<bar> = round_double \<bar>x\<bar>"
  proof (cases "0 \<le> x")
    case True
    then show ?thesis using round_double_nonneg [of x] by simp
  next
    case False
    then have "0 \<le> round_double (- x)" by (intro round_double_nonneg) simp
    with False show ?thesis by (simp add: round_double_uminus abs_if)
  qed
  ultimately show ?thesis by simp
qed

lemma js_round_small:
  assumes "\<bar>x\<bar> \<le> 4"
  shows "js_round (Fin x) = Fin (round_double x)"
proof -
  have "\<bar>x\<bar> \<le> max_double" using assms four_le_max_double by linarith
  then have "\<bar>round_double x\<bar> \<le> max_double" by (rule round_double_abs_le)
  then show ?thesis by (simp add: js_round.simps)
qed

lemma round_double_3: "round_double 3 = 3"
  by (rule round_double_exact [where e = 1 and n = "3 * 2 ^ 51"]) simp_all

lemma round_double_minus_1: "round_double (- 1) = - 1"
  by (simp only: round_double_uminus round_double_simps)

lemma js_round_minus_1 [simp]: "js_round (Fin (- 1)) = Fin (- 1)"
  using js_round_small [of "- 1"] by (simp add: round_double_minus_1)

lemma js_round_3 [simp]: "js_round (Fin 3) = Fin 3"
  using js_round_small [of 3] by (simp add: round_double_3)




text \<open>
  Claim C3. Normalising a constant sequence should give a defined constant sequence.
  The code divides by \<open>amax - amin = 0\<close>: on \<open>[5, 5, 5]\<close> every element of the result
  is \<open>0/0 = NaN\<close>, in every engine that accepts three arguments in a call.
\<close>

theorem normaliseBetween_constant_NaN:
  "3 \<le> arg_limit \<Longrightarrow>
   normaliseBetween arg_limit [Fin 5, Fin 5, Fin 5] (Fin 0) (Fin 1) = Inr [NaN, NaN, NaN]"
  by (simp add: normaliseBetween_ok Math_min_def Math_max_def
      fl_add_def fl_sub_def fl_mul_def fl_div_def)

theorem normaliseBetween_constant_NaN_witness:
  "(3::nat) \<le> 65536
   \<and> normaliseBetween 65536 [Fin 5, Fin 5, Fin 5] (Fin 0) (Fin 1) = Inr [NaN, NaN, NaN]"
  using normaliseBetween_constant_NaN [of 65536] by simp

text \<open>
  Claim C9. \<open>normaliseBetween\<close> should keep the relative order of the elements. On the
  constant sequence \<open>[2, 2]\<close> with the bounds 0 and 1 the two inputs satisfy \<open>\<le>\<close>,
  but both outputs are \<open>NaN\<close>, which is not \<open>\<le>\<close> itself.
\<close>

theorem normaliseBetween_order_lost:
  "2 \<le> arg_limit \<Longrightarrow>
   js_le ([Fin 2, Fin 2] ! 0) ([Fin 2, Fin 2] ! 1)
   \<and> normaliseBetween arg_limit [Fin 2, Fin 2] (Fin 0) (Fin 1) = Inr [NaN, NaN]
   \<and> \<not> js_le ([NaN, NaN] ! 0) ([NaN, NaN] ! 1)"
  by (simp add: normaliseBetween_ok Math_min_def Math_max_def
      fl_add_def fl_sub_def fl_mul_def fl_div_def)

theorem normaliseBetween_order_lost_witness:
  "(2::nat) \<le> 65536
   \<and> js_le ([Fin 2, Fin 2] ! 0) ([Fin 2, Fin 2] ! 1)
   \<and> normaliseBetween 65536 [Fin 2, Fin 2] (Fin 0) (Fin 1) = Inr [NaN, NaN]
   \<and> \<not> js_le ([NaN, NaN] ! 0) ([NaN, NaN] ! 1)"
  using normaliseBetween_order_lost [of 65536] by simp

text \<open>
  The length is kept whenever a sequence is returned, and with the bounds 0 and 1
  the order of the elements is kept on every sequence of finite values that are not
  all equal.
\<close>

lemma normaliseBetween_monotone:
  assumes "\<exists>a\<in>set vs. \<exists>b\<in>set vs. a \<noteq> b" and "length vs \<le> arg_limit"
    and "Max (set vs) - Min (set vs) \<le> max_double"
    and "i < length vs" "j < length vs" "vs ! i \<le> vs ! j"
  shows "\<exists>out. normaliseBetween arg_limit (map Fin vs) (Fin 0) (Fin 1) = Inr out
             \<and> js_le (out ! i) (out ! j)"
proof -
  from assms(1) obtain a b where ab: "a \<in> set vs" "b \<in> set vs" "a \<noteq> b" by blast
  let ?m = "Min (set vs)" and ?M = "Max (set vs)"
  have "?m \<le> vs ! i" using assms(4) by simp
  moreover have "?m \<le> ?M" using nonconstant_Min_Max [OF ab] by simp
  ultimately have "rescale01 ?m ?M (vs ! i) \<le> rescale01 ?m ?M (vs ! j)"
    using assms(6) by (intro rescale01_mono)
  then show ?thesis
    using assms(4,5) by (simp add: normaliseBetween_rescale01 [OF ab assms(2,3)])
qed

section \<open>The range of the heights\<close>

lemma Math_pow_unit:
  assumes "0 \<le> b" "b \<le> 1" "1 \<le> e"
  shows "\<exists>r. Math_pow (Fin b) (Fin e) = Fin r \<and> 0 \<le> r \<and> r \<le> 1"
proof (cases "b = 0")
  case True
  then show ?thesis using assms(3) by simp
next
  case False
  then have "0 < b" using assms(1) by simp
  moreover have "b powr e \<le> 1"
    using assms by (intro powr_le1) simp_all
  ultimately show ?thesis using assms(3) by simp
qed

lemma weighted_average_unit:
  assumes "as \<noteq> []" and "\<forall>a\<in>set as. 0 < a" and "\<forall>u v. \<bar>g u v\<bar> \<le> (1::real)"
  shows "0 \<le> (\<Sum>a\<leftarrow>as. (1 / a) * (g (x * a) (y * a) / 2 + 1 / 2)) / (\<Sum>a\<leftarrow>as. 1 / a)"
    and "(\<Sum>a\<leftarrow>as. (1 / a) * (g (x * a) (y * a) / 2 + 1 / 2)) / (\<Sum>a\<leftarrow>as. 1 / a) \<le> 1"
proof -
  let ?E = "\<Sum>a\<leftarrow>as. (1 / a) * (g (x * a) (y * a) / 2 + 1 / 2)"
  let ?T = "\<Sum>a\<leftarrow>as. 1 / a"
  have T: "0 < ?T" by (rule sum_list_inverse_pos [OF assms(1,2)])
  have half: "0 \<le> g u v / 2 + 1 / 2 \<and> g u v / 2 + 1 / 2 \<le> 1" for u v
    using assms(3) [rule_format, of u v] by (simp add: abs_le_iff)
  have bounds: "0 \<le> (1 / a) * (g (x * a) (y * a) / 2 + 1 / 2)
            \<and> (1 / a) * (g (x * a) (y * a) / 2 + 1 / 2) \<le> 1 / a" if "a \<in> set as" for a
  proof -
    have "0 < a" using assms(2) that by blast
    then have a: "0 \<le> 1 / a" by simp
    have "(1 / a) * (g (x * a) (y * a) / 2 + 1 / 2) \<le> (1 / a) * 1"
      using a half by (intro mult_left_mono) simp_all
    moreover have "0 \<le> (1 / a) * (g (x * a) (y * a) / 2 + 1 / 2)"
      using a half by (intro mult_nonneg_nonneg) simp_all
    ultimately show ?thesis by simp
  qed
  have "0 \<le> ?E" using bounds by (intro sum_list_nonneg) auto
  then show "0 \<le> ?E / ?T" using T by simp
  have "?E \<le> ?T" using bounds by (intro sum_list_mono) simp
  then show "?E / ?T \<le> 1" using T by simp
qed

lemma Noise_unit:
  assumes "as \<noteq> []" and "\<forall>a\<in>set as. 0 < a"
    and "\<forall>u v. noise (Fin u) (Fin v) = Fin (g u v)" and "\<forall>u v. \<bar>g u v\<bar> \<le> 1"
    and "1 \<le> e"
  shows "\<exists>r. Noise noise (map Fin as) (Fin e) (Fin x) (Fin y) = Fin r \<and> 0 \<le> r \<and> r \<le> 1"
  unfolding Noise_Fin [OF assms(1-3)]
  by (intro Math_pow_unit weighted_average_unit assms)

lemma coordinate_finite:
  assumes "0 < l"
  shows "\<exists>r. js_div (Fin c) (js_div (Fin l) (Fin f)) = Fin r"
  using assms by (cases "f = 0") (simp_all add: signed_inf_def)

lemma Fin_list:
  "\<forall>v\<in>set xs. \<exists>r. v = Fin r \<and> P r \<Longrightarrow> \<exists>rs. xs = map Fin rs \<and> (\<forall>r\<in>set rs. P r)"
proof (induction xs)
  case Nil
  show ?case by simp
next
  case (Cons v xs)
  then obtain q qs where "v = Fin q" "P q" "xs = map Fin qs" "\<forall>r\<in>set qs. P r"
    by auto
  then have "v # xs = map Fin (q # qs) \<and> (\<forall>r\<in>set (q # qs). P r)" by simp
  then show ?case by (rule exI [of _ "q # qs"])
qed

text \<open>
  Without normalisation the heights lie in \<open>[0, 1]\<close>: for a level of detail from 1
  to 65535, a finite frequency, a finite exponent of at least 1, a non-empty
  schedule of positive amplitudes and a base noise function with values in
  \<open>[-1, 1]\<close>.
\<close>

lemma generate_unit_interval:
  assumes "1 \<le> lod t" and "lod t \<le> 65535" and "1 \<le> e"
    and "as \<noteq> []" and "\<forall>a\<in>set as. 0 < a"
    and "\<forall>u v. noise2D t (Fin u) (Fin v) = Fin (g u v)" and "\<forall>u v. \<bar>g u v\<bar> \<le> 1"
  shows "\<exists>rs. generate arg_limit t seed (Fin f) (Fin e) (map Fin as) False = Inr (t\<lparr>heightmap := map Fin rs\<rparr>)
            \<and> (\<forall>r\<in>set rs. 0 \<le> r \<and> r \<le> 1)"
proof -
  let ?l = "lod t"
  let ?g = "grid (noise2D t) ?l (Fin f) (Fin e) (map Fin as)"
  have "?l * ?l \<le> 65535 * 65535"
    using assms(1,2) by (intro mult_mono) simp_all
  then have ok: "\<not> 2 ^ 32 - 1 < ?l * ?l" by simp
  have "\<exists>r. v = Fin r \<and> 0 \<le> r \<and> r \<le> 1" if "v \<in> set ?g" for v
  proof -
    from that obtain k where k: "k < nat (?l * ?l)"
      and v: "v = cell (noise2D t) ?l (Fin f) (Fin e) (map Fin as) (int k)"
      by (auto simp add: grid_def)
    have l: "0 < real_of_int ?l" using assms(1) by simp
    obtain nx where nx: "js_div (Fin (of_int (int k mod ?l))) (js_div (Fin (of_int ?l)) (Fin f)) = Fin nx"
      using coordinate_finite [OF l] by blast
    obtain ny where ny: "js_div (Fin (of_int (int k div ?l))) (js_div (Fin (of_int ?l)) (Fin f)) = Fin ny"
      using coordinate_finite [OF l] by blast
    have "v = Noise (noise2D t) (map Fin as) (Fin e) (Fin nx) (Fin ny)"
      unfolding v nx [symmetric] ny [symmetric]
      using assms(1,2) k by (intro cell_coordinates) simp_all
    then show ?thesis
      using Noise_unit [OF assms(4-7,3)] by simp
  qed
  then obtain rs where "?g = map Fin rs" "\<forall>r\<in>set rs. 0 \<le> r \<and> r \<le> 1"
    using Fin_list [of ?g "\<lambda>r. 0 \<le> r \<and> r \<le> 1"] by blast
  then show ?thesis
    using ok by (auto simp add: generate_eq)
qed

text \<open>
  With normalisation the heights lie in \<open>[0, 1]\<close> as soon as the heights before
  normalisation are finite and not all equal, the grid is short enough to be
  spread into a call, and the range of the heights does not overflow.
\<close>

lemma generate_normalised_unit_interval:
  assumes "generate arg_limit t seed frequency exponent amplitudes False = Inr t'"
    and "heightmap t' = map Fin vs" and "\<exists>a\<in>set vs. \<exists>b\<in>set vs. a \<noteq> b"
    and "length vs \<le> arg_limit" and "Max (set vs) - Min (set vs) \<le> max_double"
  shows "\<exists>t'' rs. generate arg_limit t seed frequency exponent amplitudes True = Inr t''
            \<and> heightmap t'' = map Fin rs \<and> (\<forall>r\<in>set rs. 0 \<le> r \<and> r \<le> 1)"
proof -
  from assms(3) obtain a b where ab: "a \<in> set vs" "b \<in> set vs" "a \<noteq> b" by blast
  let ?rs = "map (rescale01 (Min (set vs)) (Max (set vs))) vs"
  have unit: "\<forall>r\<in>set ?rs. 0 \<le> r \<and> r \<le> 1"
    by (rule rescale01_list_range(3) [OF ab])
  have "generate arg_limit t seed frequency exponent amplitudes True
      = Inr (t'\<lparr>heightmap := map Fin ?rs\<rparr>)"
    by (simp add: generate_normalise [OF assms(1)] assms(2)
        normaliseBetween_rescale01 [OF ab assms(4,5)])
  moreover have "heightmap (t'\<lparr>heightmap := map Fin ?rs\<rparr>) = map Fin ?rs" by simp
  ultimately show ?thesis using unit by blast
qed

text \<open>
  A base noise function that is constant makes the grid constant, and the
  normalisation of a constant grid is \<open>NaN\<close> in every cell, whatever the constant.
\<close>

lemma nv_const_noise: "nv (const_noise c) nx ny = Fin (c / 2 + 1 / 2)"
  by (simp add: nv_def const_noise_def)

lemma Noise_loop_const_noise:
  "Noise_loop (const_noise c) x y amplitudes acc = Noise_loop (const_noise c) x' y' amplitudes acc"
proof (induction amplitudes arbitrary: acc)
  case Nil
  show ?case by (cases acc) simp
next
  case (Cons amp amplitudes)
  show ?case
    by (cases acc) (simp add: Let_def nv_const_noise Cons.IH)
qed

lemma grid_const_noise:
  "grid (const_noise c) l frequency exponent amplitudes =
   replicate (nat (l * l)) (Noise (const_noise c) amplitudes exponent (Fin 0) (Fin 0))"
proof -
  have "cell (const_noise c) l frequency exponent amplitudes i =
        Noise (const_noise c) amplitudes exponent (Fin 0) (Fin 0)" for i
    unfolding cell_def Let_def Noise_def
    by (subst Noise_loop_const_noise [where x' = "Fin 0" and y' = "Fin 0"]) (rule refl)
  then show ?thesis
    by (simp add: grid_def map_replicate_const)
qed

lemma generate_const_noise_NaN:
  assumes "noise2D t = const_noise c" and "lod t \<noteq> 0" and "lod t * lod t \<le> 2 ^ 32 - 1"
    and "nat (lod t * lod t) \<le> arg_limit"
  shows "generate arg_limit t seed frequency exponent amplitudes True =
         Inr (t\<lparr>heightmap := replicate (nat (lod t * lod t)) NaN\<rparr>)"
proof -
  have "0 \<le> lod t * lod t" by simp
  moreover have "lod t * lod t \<noteq> 0" using assms(2) by simp
  ultimately have "0 < lod t * lod t" by linarith
  then have "0 < nat (lod t * lod t)" by simp
  then have "normaliseBetween arg_limit
      (replicate (nat (lod t * lod t)) (Noise (const_noise c) amplitudes exponent (Fin 0) (Fin 0)))
      (Fin 0) (Fin 1) = Inr (replicate (nat (lod t * lod t)) NaN)"
    using assms(4) by (rule normaliseBetween_replicate)
  then show ?thesis
    using assms(1,3) by (simp add: generate_eq grid_const_noise)
qed

text \<open>
  Claim C6. Every height returned by \<open>generate\<close> should lie in \<open>[0, 1]\<close>, with and
  without normalisation. With normalisation a constant grid is stored as \<open>NaN\<close> in
  every cell, and \<open>NaN\<close> is neither at least 0 nor at most 1. Two inputs: a level
  of detail of 1 (one cell, with the frequency 1, the exponent 1 and the schedule
  \<open>[1]\<close>), and the level of detail 128 with the frequency 2, the exponent 4 and the
  schedule of 6 octaves with the step 4, the values the interface starts with. The
  base noise function is constantly 0 in both, and the engine accepts the 16384
  cells of the larger grid as arguments of a call.
\<close>

theorem generate_normalised_constant_NaN:
  "16384 \<le> arg_limit \<Longrightarrow>
   generate arg_limit \<lparr>heightmap = [], mapSize = 10, lod = 1, noise2D = const_noise 0\<rparr>
     (Fin 7) (Fin 1) (Fin 1) [Fin 1] True
   = Inr \<lparr>heightmap = [NaN], mapSize = 10, lod = 1, noise2D = const_noise 0\<rparr>
   \<and> generate arg_limit \<lparr>heightmap = [], mapSize = 1280, lod = 128, noise2D = const_noise 0\<rparr>
     (Fin 7) (Fin 2) (Fin 4) (updateVars_amps 6 (Fin 4)) True
   = Inr \<lparr>heightmap = replicate 16384 NaN, mapSize = 1280, lod = 128, noise2D = const_noise 0\<rparr>
   \<and> \<not> js_le (Fin 0) NaN \<and> \<not> js_le NaN (Fin 1)"
proof -
  assume limit: "16384 \<le> arg_limit"
  have one: "generate arg_limit \<lparr>heightmap = [], mapSize = 10, lod = 1, noise2D = const_noise 0\<rparr>
     (Fin 7) (Fin 1) (Fin 1) [Fin 1] True
   = Inr \<lparr>heightmap = [NaN], mapSize = 10, lod = 1, noise2D = const_noise 0\<rparr>"
    using limit by (subst generate_const_noise_NaN [where c = 0]) simp_all
  have default: "generate arg_limit \<lparr>heightmap = [], mapSize = 1280, lod = 128, noise2D = const_noise 0\<rparr>
     (Fin 7) (Fin 2) (Fin 4) (updateVars_amps 6 (Fin 4)) True
   = Inr \<lparr>heightmap = replicate 16384 NaN, mapSize = 1280, lod = 128, noise2D = const_noise 0\<rparr>"
    using limit by (subst generate_const_noise_NaN [where c = 0]) simp_all
  from one default show ?thesis by simp
qed

theorem generate_normalised_constant_NaN_witness:
  "(16384::nat) \<le> 65536
   \<and> generate 65536 \<lparr>heightmap = [], mapSize = 10, lod = 1, noise2D = const_noise 0\<rparr>
     (Fin 7) (Fin 1) (Fin 1) [Fin 1] True
   = Inr \<lparr>heightmap = [NaN], mapSize = 10, lod = 1, noise2D = const_noise 0\<rparr>
   \<and> generate 65536 \<lparr>heightmap = [], mapSize = 1280, lod = 128, noise2D = const_noise 0\<rparr>
     (Fin 7) (Fin 2) (Fin 4) (updateVars_amps 6 (Fin 4)) True
   = Inr \<lparr>heightmap = replicate 16384 NaN, mapSize = 1280, lod = 128, noise2D = const_noise 0\<rparr>
   \<and> \<not> js_le (Fin 0) NaN \<and> \<not> js_le NaN (Fin 1)"
  using generate_normalised_constant_NaN [of 65536] by simp

section \<open>The amplitude schedule\<close>

text \<open>
  Entered at index \<open>i\<close> with an array of \<open>i\<close> elements, the loop of \<open>updateVars\<close>
  appends \<open>octv - i\<close> elements, each the previous one plus \<open>ampl\<close>, and leaves the
  elements it found unchanged.
\<close>

lemma amps_loop_invariant:
  "1 \<le> i \<Longrightarrow> i \<le> octv \<Longrightarrow> int (length amps) = i \<Longrightarrow>
   length (amps_loop octv ampl i amps) = nat octv
   \<and> take (nat i) (amps_loop octv ampl i amps) = amps
   \<and> (\<forall>k. nat i \<le> Suc k \<and> Suc k < nat octv \<longrightarrow>
          amps_loop octv ampl i amps ! Suc k = js_add (amps_loop octv ampl i amps ! k) ampl)"
proof (induction octv ampl i amps rule: amps_loop.induct)
  case (1 octv ampl i amps)
  show ?case
  proof (cases "i < octv")
    case False
    then have "amps_loop octv ampl i amps = amps"
      by (subst amps_loop.simps) simp
    with False "1.prems" show ?thesis by auto
  next
    case True
    let ?amps' = "amps @ [js_add (js_index amps (i - 1)) ampl]"
    let ?r = "amps_loop octv ampl (i + 1) ?amps'"
    have step: "amps_loop octv ampl i amps = ?r"
      using True by (subst amps_loop.simps) simp
    have len: "length amps = nat i" using "1.prems" by simp
    have ih: "length ?r = nat octv \<and> take (nat (i + 1)) ?r = ?amps'
        \<and> (\<forall>k. nat (i + 1) \<le> Suc k \<and> Suc k < nat octv \<longrightarrow> ?r ! Suc k = js_add (?r ! k) ampl)"
      using True "1.prems" by (intro "1.IH") simp_all
    have suc: "nat (i + 1) = Suc (nat i)" using "1.prems"(1) by simp
    have pre: "take (nat i) ?r = amps"
    proof -
      have "take (nat i) ?r = take (nat i) (take (nat (i + 1)) ?r)"
        by (simp add: suc min_def)
      also have "\<dots> = take (nat i) ?amps'" using ih by simp
      also have "\<dots> = amps" using len by simp
      finally show ?thesis .
    qed
    have idx: "js_index amps (i - 1) = amps ! (nat i - 1)"
      using "1.prems" by (simp add: js_index_def nat_diff_distrib)
    have at_i: "?r ! nat i = js_add (?r ! (nat i - 1)) ampl"
    proof -
      have lt: "nat i < length ?r" using ih True "1.prems"(1) by simp
      have "?r ! nat i = take (nat (i + 1)) ?r ! nat i"
        by (simp add: suc)
      also have "\<dots> = js_add (amps ! (nat i - 1)) ampl"
        using ih len idx by (simp add: nth_append)
      also have "amps ! (nat i - 1) = take (nat i) ?r ! (nat i - 1)"
        by (simp only: pre)
      also have "\<dots> = ?r ! (nat i - 1)"
        using "1.prems"(1) by simp
      finally show ?thesis .
    qed
    have rec: "?r ! Suc k = js_add (?r ! k) ampl" if "nat i \<le> Suc k" "Suc k < nat octv" for k
    proof (cases "Suc k = nat i")
      case True
      then show ?thesis using at_i by (metis diff_Suc_1)
    next
      case False
      with that have "nat (i + 1) \<le> Suc k" by (simp add: suc)
      with that ih show ?thesis by blast
    qed
    show ?thesis
      unfolding step using ih pre rec by blast
  qed
qed

text \<open>
  Claim C5. For every integer \<open>octv\<close> of at least 1 and every step \<open>ampl\<close>, the
  amplitude schedule built by \<open>updateVars\<close> has exactly \<open>octv\<close> elements, its first
  element is 1, and every later element is the one before it plus \<open>ampl\<close>. One
  octave gives \<open>[1]\<close> for any step, four octaves give \<open>[1, 3, 5, 7]\<close> with the step 2
  and \<open>[1, 2, 3, 4]\<close> with the step 1.
\<close>

theorem updateVars_amps_schedule:
  assumes "1 \<le> octv"
  shows "length (updateVars_amps octv ampl) = nat octv
       \<and> updateVars_amps octv ampl ! 0 = Fin 1
       \<and> (\<forall>k. Suc k < nat octv \<longrightarrow>
              updateVars_amps octv ampl ! Suc k = js_add (updateVars_amps octv ampl ! k) ampl)
       \<and> updateVars_amps 1 ampl = [Fin 1]
       \<and> updateVars_amps 4 (Fin 2) = [Fin 1, Fin 3, Fin 5, Fin 7]
       \<and> updateVars_amps 4 (Fin 1) = [Fin 1, Fin 2, Fin 3, Fin 4]"
proof -
  let ?r = "updateVars_amps octv ampl"
  have inv: "length ?r = nat octv \<and> take (nat 1) ?r = [Fin 1]
      \<and> (\<forall>k. nat 1 \<le> Suc k \<and> Suc k < nat octv \<longrightarrow> ?r ! Suc k = js_add (?r ! k) ampl)"
    unfolding updateVars_amps_def using assms by (intro amps_loop_invariant) simp_all
  have "take (Suc 0) ?r = [Fin 1]" using inv by simp
  then have "take (Suc 0) ?r ! 0 = Fin 1" by (simp only: nth_Cons_0)
  then have first: "?r ! 0 = Fin 1" by simp
  have one: "updateVars_amps 1 ampl = [Fin 1]"
    by (simp add: updateVars_amps_def amps_loop.simps)
  have two: "updateVars_amps 4 (Fin 2) = [Fin 1, Fin 3, Fin 5, Fin 7]"
    by (simp add: updateVars_amps_def amps_loop.simps js_index_def)
  have three: "updateVars_amps 4 (Fin 1) = [Fin 1, Fin 2, Fin 3, Fin 4]"
    by (simp add: updateVars_amps_def amps_loop.simps js_index_def)
  from inv first one two three show ?thesis by simp
qed

theorem updateVars_amps_schedule_witness:
  "(1::int) \<le> 3
   \<and> length (updateVars_amps 3 (Fin (1 / 2))) = 3
   \<and> updateVars_amps 3 (Fin (1 / 2)) ! 0 = Fin 1
   \<and> updateVars_amps 3 (Fin (1 / 2)) ! 2 = js_add (updateVars_amps 3 (Fin (1 / 2)) ! 1) (Fin (1 / 2))"
  using updateVars_amps_schedule [of 3 "Fin (1 / 2)"]
  by (simp add: eval_nat_numeral)

section \<open>The level of detail from the URL hash\<close>





end
